theory Spec2Isabelle
  imports Complex_Main "HOL-Library.Char_ord" "HOL-Library.List_Lexorder"
    "HOL-Library.Multiset" "HOL-Library.Product_Lexorder"
begin

section \<open>JavaScript values and array primitives used by the benchmark core\<close>

text \<open>
  The repository is plain JavaScript. A read past the end of an array yields \<open>undefined\<close>,
  modelled as \<open>None\<close>; iterating over \<open>undefined\<close> throws a \<open>TypeError\<close>.
\<close>

datatype js_error = TypeError

subsection \<open>Numbers\<close>

text \<open>
  A JavaScript number is an IEEE 754 double: a finite value (here the real it denotes, with
  the negative zero kept apart), an infinity, or \<open>NaN\<close>. Clock readings and latencies are
  finite and are carried as reals. The frame-rate formula is evaluated in double arithmetic:
  every subtraction and division returns the double nearest to the exact result, ties going
  to the even significand.
\<close>

datatype jsnum = Num real | NegZero | PosInfinity | NegInfinity | NaN

text \<open>The nearest integer, ties to the even one.\<close>

definition round_even :: "real \<Rightarrow> int" where
  "round_even x =
     (let f = \<lfloor>x\<rfloor>; d = x - of_int f
      in if d < 1 / 2 then f else if d > 1 / 2 then f + 1 else if even f then f else f + 1)"

text \<open>
  The nearest double of a real, with the exponent range unbounded above: a value between
  \<open>2^e\<close> and \<open>2^(e+1)\<close> is rounded to a multiple of \<open>2^(e-52)\<close>; below \<open>2^(-1022)\<close> the
  spacing stays \<open>2^(-1074)\<close> (subnormal numbers).
\<close>

definition to_double :: "real \<Rightarrow> real" where
  "to_double x =
     (if x = 0 then 0
      else (let q = 2 powr of_int (max \<lfloor>log 2 \<bar>x\<bar>\<rfloor> (- 1022) - 52)
            in of_int (round_even (x / q)) * q))"

text \<open>
  The double that an operation with exact result \<open>e\<close> returns: a rounded magnitude of
  \<open>2^1024\<close> or more overflows to an infinity, and a nonzero result that rounds to zero
  keeps its sign.
\<close>

definition double_of :: "real \<Rightarrow> jsnum" where
  "double_of e =
     (let r = to_double e
      in if r \<ge> 2 ^ 1024 then PosInfinity
         else if r \<le> - (2 ^ 1024) then NegInfinity
         else if r = 0 \<and> e < 0 then NegZero
         else Num r)"

fun is_neg :: "jsnum \<Rightarrow> bool" where
  "is_neg (Num x) = (x < 0)"
| "is_neg NegZero = True"
| "is_neg PosInfinity = False"
| "is_neg NegInfinity = True"
| "is_neg NaN = False"

fun is_zero :: "jsnum \<Rightarrow> bool" where
  "is_zero (Num x) = (x = 0)"
| "is_zero NegZero = True"
| "is_zero v = False"

fun is_inf :: "jsnum \<Rightarrow> bool" where
  "is_inf PosInfinity = True"
| "is_inf NegInfinity = True"
| "is_inf v = False"

fun num_value :: "jsnum \<Rightarrow> real" where
  "num_value (Num x) = x"
| "num_value v = 0"

text \<open>The operators \<open>-\<close> on two finite numbers and \<open>/\<close> on any two numbers.\<close>

definition js_sub :: "real \<Rightarrow> real \<Rightarrow> jsnum" where
  "js_sub a b = double_of (a - b)"

definition js_div :: "jsnum \<Rightarrow> jsnum \<Rightarrow> jsnum" where
  "js_div a b =
     (if a = NaN \<or> b = NaN then NaN
      else if (is_zero a \<and> is_zero b) \<or> (is_inf a \<and> is_inf b) then NaN
      else if is_inf a \<or> is_zero b
        then (if is_neg a \<noteq> is_neg b then NegInfinity else PosInfinity)
      else if is_zero a \<or> is_inf b
        then (if is_neg a \<noteq> is_neg b then NegZero else Num 0)
      else double_of (num_value a / num_value b))"

text \<open>
  \<open>Math.round\<close>: the nearest integer, halves towards plus infinity; a value in
  \<open>[-0.5, 0)\<close> gives the negative zero; zeros, infinities and \<open>NaN\<close> are returned as they
  are. The result is an integer and needs no rounding to a double.
\<close>

fun math_round :: "jsnum \<Rightarrow> jsnum" where
  "math_round (Num x) =
     (if - (1 / 2) \<le> x \<and> x < 0 then NegZero else Num (of_int \<lfloor>x + 1 / 2\<rfloor>))"
| "math_round v = v"

subsection \<open>Arrays\<close>

definition js_index :: "'a list \<Rightarrow> nat \<Rightarrow> 'a option" where
  "js_index xs k = (if k < length xs then Some (xs ! k) else None)"

text \<open>
  \<open>Array.prototype.sort(cmp)\<close> is stable and, for a consistent comparator, places \<open>a\<close>
  before \<open>b\<close> whenever \<open>cmp(a, b) < 0\<close>. It is modelled by stable insertion sort driven by
  the comparator itself.
\<close>

fun insert_cmp :: "('a \<Rightarrow> 'a \<Rightarrow> 'n::{zero,ord}) \<Rightarrow> 'a \<Rightarrow> 'a list \<Rightarrow> 'a list" where
  "insert_cmp cmp x [] = [x]"
| "insert_cmp cmp x (y # ys) =
     (if cmp x y \<le> 0 then x # y # ys else y # insert_cmp cmp x ys)"

definition array_sort :: "('a \<Rightarrow> 'a \<Rightarrow> 'n::{zero,ord}) \<Rightarrow> 'a list \<Rightarrow> 'a list" where
  "array_sort cmp xs = foldr (insert_cmp cmp) xs []"

section \<open>Latency samplers (matrix.js, matrix-enriched.js, PrismDynamic)\<close>

text \<open>
  Every sampler resolves a promise either with a bare number or with a statistics object.
  A field holding \<open>undefined\<close> is \<open>None\<close>.
\<close>

record hoverStats =
  p50 :: "real option"
  p95 :: "real option"

record brushStats = hoverStats +
  fps :: jsnum

datatype resolved = Number real | Hover hoverStats | Brush brushStats

text \<open>
  The body of the \<open>if (i >= samples)\<close> branch of \<open>next\<close>. The hover samplers resolve
  with the two percentiles; the brush samplers (\<open>measureBrushLatency\<close> in matrix.js,
  \<open>measureBrush\<close> in matrix-enriched.js and in PrismDynamic) share, word for word, the
  block that also derives the frame rate from the frame timestamps.
\<close>

definition numeric_cmp :: "real \<Rightarrow> real \<Rightarrow> real" where
  "numeric_cmp a b = a - b"

definition frame_rate :: "real list \<Rightarrow> jsnum" where
  "frame_rate stamps =
     (if length stamps > 1
      then js_div (Num 1000)
             (js_div (js_sub (stamps ! (length stamps - 1)) (stamps ! 0))
                     (Num (real (length stamps - 1))))
      else Num 0)"

definition resolveHover :: "real list \<Rightarrow> hoverStats" where
  "resolveHover latencies =
     (let sorted_l = array_sort numeric_cmp latencies
      in \<lparr> p50 = js_index sorted_l (nat \<lfloor>real (length sorted_l) * 0.5\<rfloor>),
           p95 = js_index sorted_l (nat \<lfloor>real (length sorted_l) * 0.95\<rfloor>) \<rparr>)"

definition resolveBrush :: "real list \<Rightarrow> real list \<Rightarrow> brushStats" where
  "resolveBrush latencies stamps =
     (let sorted_l = array_sort numeric_cmp latencies;
          f = frame_rate stamps
      in \<lparr> p50 = js_index sorted_l (nat \<lfloor>real (length sorted_l) * 0.5\<rfloor>),
           p95 = js_index sorted_l (nat \<lfloor>real (length sorted_l) * 0.95\<rfloor>),
           fps = math_round f \<rparr>)"

text \<open>
  The trial loop \<open>next\<close>. The environment \<open>clock i\<close> gives the two clock readings of trial
  \<open>i\<close>: \<open>t0\<close> taken before the trigger and \<open>t1\<close> taken in the frame callback. Each trial
  pushes \<open>t1 - t0\<close> (and, for a brush sampler, \<open>t1\<close>) and increments \<open>i\<close>. The result is
  paired with the number of trials that were run. The pushed latency is carried as the real
  \<open>t1 - t0\<close>; the percentiles only select an element of the list.
\<close>

function hoverNext :: "int \<Rightarrow> (nat \<Rightarrow> real \<times> real) \<Rightarrow> nat \<Rightarrow> real list \<Rightarrow> resolved \<times> nat" where
  "hoverNext samples clock i latencies =
     (if int i \<ge> samples then (Hover (resolveHover latencies), i)
      else (case clock i of (t0, t1) \<Rightarrow>
              hoverNext samples clock (i + 1) (latencies @ [t1 - t0])))"
  by pat_completeness auto
termination
  by (relation "measure (\<lambda>(samples, clock, i, latencies). nat (samples - int i))") auto

declare hoverNext.simps [simp del]

function brushNext ::
  "int \<Rightarrow> (nat \<Rightarrow> real \<times> real) \<Rightarrow> nat \<Rightarrow> real list \<Rightarrow> real list \<Rightarrow> resolved \<times> nat" where
  "brushNext samples clock i latencies stamps =
     (if int i \<ge> samples then (Brush (resolveBrush latencies stamps), i)
      else (case clock i of (t0, t1) \<Rightarrow>
              brushNext samples clock (i + 1) (latencies @ [t1 - t0]) (stamps @ [t1])))"
  by pat_completeness auto
termination
  by (relation "measure (\<lambda>(samples, clock, i, latencies, stamps). nat (samples - int i))") auto

declare brushNext.simps [simp del]

text \<open>matrix.js: \<open>measureHoverLatency(svg, n)\<close>; \<open>rects_size\<close> is \<open>rects.size()\<close>, named \<open>total\<close> in the source.\<close>

definition measureHoverLatency :: "nat \<Rightarrow> (nat \<Rightarrow> real \<times> real) \<Rightarrow> resolved \<times> nat" where
  "measureHoverLatency rects_size clock =
     (if rects_size = 0 then (Number 0, 0)
      else hoverNext (min 200 (int rects_size)) clock 0 [])"

text \<open>matrix.js: \<open>measureBrushLatency(svg, n)\<close>.\<close>

definition measureBrushLatency :: "nat \<Rightarrow> int \<Rightarrow> (nat \<Rightarrow> real \<times> real) \<Rightarrow> resolved \<times> nat" where
  "measureBrushLatency rects_size n clock =
     (if rects_size = 0 then (Number 0, 0)
      else brushNext (min 100 n) clock 0 [] [])"

text \<open>matrix-enriched.js: \<open>measureBrush(containerId, n)\<close>.\<close>

definition measureBrush :: "nat \<Rightarrow> int \<Rightarrow> (nat \<Rightarrow> real \<times> real) \<Rightarrow> resolved \<times> nat" where
  "measureBrush rects_size n clock =
     (if rects_size = 0 then (Brush \<lparr> p50 = Some 0, p95 = Some 0, fps = Num 0 \<rparr>, 0)
      else brushNext (min 60 n) clock 0 [] [])"

text \<open>PrismDynamic: \<open>measureBrush(containerId, T)\<close>; \<open>rects_size\<close> is \<open>rects.size()\<close>, named \<open>total\<close> in the source.\<close>

definition prismMeasureBrush :: "nat \<Rightarrow> int \<Rightarrow> (nat \<Rightarrow> real \<times> real) \<Rightarrow> resolved \<times> nat" where
  "prismMeasureBrush rects_size T clock =
     (if rects_size = 0 then (Brush \<lparr> p50 = Some 0, p95 = Some 0, fps = Num 0 \<rparr>, 0)
      else brushNext (min 50 T) clock 0 [] [])"

section \<open>Cluster detection (network-view.js)\<close>

subsection \<open>Plain objects as dictionaries\<close>

text \<open>
  The identifier index is a plain object, \<open>tickerIndex = {}\<close>, so its prototype is
  \<open>Object.prototype\<close>. The object is given by the map of its own properties, all of them
  row indices. Reading a key that is not an own property falls through to the prototype:
  for the property names of \<open>Object.prototype\<close> the read yields a function or an object
  (here \<open>Inherited\<close>), and \<open>undefined\<close> (here \<open>None\<close>) for every other key.
\<close>

definition object_prototype_keys :: "string list" where
  "object_prototype_keys =
     [''constructor'', ''__defineGetter__'', ''__defineSetter__'', ''hasOwnProperty'',
      ''__lookupGetter__'', ''__lookupSetter__'', ''isPrototypeOf'', ''propertyIsEnumerable'',
      ''toString'', ''valueOf'', ''__proto__'', ''toLocaleString'']"

datatype js_prop = Index nat | Inherited

definition prop_read :: "(string \<rightharpoonup> nat) \<Rightarrow> string \<Rightarrow> js_prop option" where
  "prop_read obj k =
     (case obj k of
        Some i \<Rightarrow> Some (Index i)
      | None \<Rightarrow> if k \<in> set object_prototype_keys then Some Inherited else None)"

text \<open>
  The assignment \<open>obj[k] = i\<close> of a number creates or overwrites an own property, except
  for the key \<open>__proto__\<close>: that is the prototype accessor, whose setter ignores a value that
  is not an object.
\<close>

definition prop_write :: "(string \<rightharpoonup> nat) \<Rightarrow> string \<Rightarrow> nat \<Rightarrow> (string \<rightharpoonup> nat)" where
  "prop_write obj k i = (if k = ''__proto__'' then obj else obj(k \<mapsto> i))"

subsection \<open>Data\<close>

text \<open>
  The per-year correlation data \<open>{ tickers, matrix, tickerIndex }\<close>; the field
  \<open>tickerIndex\<close> holds the own properties of the index object.
\<close>

record corrData =
  tickers :: "string list"
  matrix :: "real list list"
  tickerIndex :: "string \<rightharpoonup> nat"

text \<open>
  \<open>loadCorrelationForYear\<close> derives the index from the identifier sequence:
  \<open>const tickerIndex = {}; data.tickers.forEach((t, i) => { tickerIndex[t] = i; })\<close>.
\<close>

definition buildTickerIndex :: "string list \<Rightarrow> (string \<rightharpoonup> nat)" where
  "buildTickerIndex ts =
     fold (\<lambda>(t, i) obj. prop_write obj t i) (zip ts [0..<length ts]) Map.empty"

text \<open>
  A component object \<open>{ id, indices, tickers, size, containsMustHave }\<close>. The fields
  \<open>id\<close>, \<open>tickers\<close> and \<open>size\<close> are written \<open>comp_id\<close>, \<open>comp_tickers\<close> and
  \<open>comp_size\<close>.
\<close>

record component =
  comp_id :: nat
  indices :: "nat list"
  comp_tickers :: "string list"
  comp_size :: nat
  containsMustHave :: bool

text \<open>
  The result object. The early return carries \<open>clusterTickers\<close>, \<open>components\<close> and
  \<open>error\<close> only; the regular return carries no \<open>error\<close> property. An absent property is
  \<open>None\<close>.
\<close>

record clusterResult =
  clusterTickers :: "string list"
  components :: "component list"
  error :: "string option"
  validMustHave :: "string list option"
  threshold :: "real option"
  totalNodes :: "nat option"
  nodesAboveThreshold :: "nat option"

subsection \<open>Adjacency lists\<close>

text \<open>
  The test \<open>Math.abs(matrix[i][j]) >= threshold\<close>. A missing row makes \<open>matrix[i][j]\<close>
  throw; a missing entry is \<open>undefined\<close>, whose absolute value is \<open>NaN\<close>, and the
  comparison is false.
\<close>

definition edge_test :: "real list list \<Rightarrow> real \<Rightarrow> nat \<Rightarrow> nat \<Rightarrow> js_error + bool" where
  "edge_test m th i j =
     (case js_index m i of
        None \<Rightarrow> Inl TypeError
      | Some row \<Rightarrow> (case js_index row j of None \<Rightarrow> Inr False | Some v \<Rightarrow> Inr (\<bar>v\<bar> \<ge> th)))"

text \<open>\<open>adj[i].push(j); adj[j].push(i);\<close>\<close>

definition push_edge :: "nat list list \<Rightarrow> nat \<Rightarrow> nat \<Rightarrow> nat list list" where
  "push_edge adj i j = (let adj1 = adj[i := adj ! i @ [j]] in adj1[j := adj1 ! j @ [i]])"

text \<open>The inner loop over \<open>j = i + 1 .. n - 1\<close> and the outer loop over \<open>i = 0 .. n - 1\<close>.\<close>

fun adj_inner ::
  "real list list \<Rightarrow> real \<Rightarrow> nat \<Rightarrow> nat list \<Rightarrow> nat list list \<Rightarrow> js_error + nat list list" where
  "adj_inner m th i [] adj = Inr adj"
| "adj_inner m th i (j # js) adj =
     (case edge_test m th i j of
        Inl e \<Rightarrow> Inl e
      | Inr b \<Rightarrow> adj_inner m th i js (if b then push_edge adj i j else adj))"

fun adj_outer ::
  "real list list \<Rightarrow> real \<Rightarrow> nat \<Rightarrow> nat list \<Rightarrow> nat list list \<Rightarrow> js_error + nat list list" where
  "adj_outer m th n [] adj = Inr adj"
| "adj_outer m th n (i # is) adj =
     (case adj_inner m th i [i + 1..<n] adj of
        Inl e \<Rightarrow> Inl e
      | Inr adj' \<Rightarrow> adj_outer m th n is adj')"

definition buildAdj :: "real list list \<Rightarrow> real \<Rightarrow> nat \<Rightarrow> js_error + nat list list" where
  "buildAdj m th n = adj_outer m th n [0..<n] (replicate n [])"

subsection \<open>Breadth-first search from the must-have identifiers\<close>

text \<open>
  A JavaScript \<open>Set\<close> of indices iterates in insertion order; it is a duplicate-free list,
  and \<open>add\<close> appends an element that is not yet a member.
\<close>

definition set_add :: "nat \<Rightarrow> nat list \<Rightarrow> nat list" where
  "set_add x s = (if x \<in> set s then s else s @ [x])"

text \<open>The \<open>for (const neighbor of adj[current])\<close> loop on the pair (visited, queue).\<close>

fun visit_neighbors :: "nat list \<Rightarrow> nat list \<times> nat list \<Rightarrow> nat list \<times> nat list" where
  "visit_neighbors [] (visited, queue) = (visited, queue)"
| "visit_neighbors (x # xs) (visited, queue) =
     visit_neighbors xs
       (if x \<notin> set visited then (set_add x visited, queue @ [x]) else (visited, queue))"

text \<open>
  The \<open>while (queue.length > 0)\<close> loop. \<open>adj[current]\<close> is \<open>undefined\<close> for an index outside
  the array, and iterating over it throws.
\<close>

function bfs_loop :: "nat list list \<Rightarrow> nat list \<Rightarrow> nat list \<Rightarrow> js_error + nat list" where
  "bfs_loop adj visited [] = Inr visited"
| "bfs_loop adj visited (current # queue) =
     (case js_index adj current of
        None \<Rightarrow> Inl TypeError
      | Some nbrs \<Rightarrow>
          (case visit_neighbors nbrs (visited, queue) of
             (visited', queue') \<Rightarrow> bfs_loop adj visited' queue'))"
  by pat_completeness auto
termination
proof (relation "measure (\<lambda>(adj, visited, queue).
          2 * card (\<Union> (set ` set adj) - set visited) + length queue)", goal_cases)
  case 1
  show ?case by simp
next
  case (2 adj visited current queue nbrs visited' queue')
  have step: "\<And>v q v' q'. visit_neighbors xs (v, q) = (v', q') \<Longrightarrow> set xs \<subseteq> U \<Longrightarrow> finite U \<Longrightarrow>
      2 * card (U - set v') + length q' \<le> 2 * card (U - set v) + length q"
    for xs :: "nat list" and U
  proof (induction xs)
    case Nil
    then show ?case by simp
  next
    case (Cons y ys)
    show ?case
    proof (cases "y \<in> set v")
      case True
      with Cons.prems have "visit_neighbors ys (v, q) = (v', q')" by simp
      from Cons.IH[OF this] Cons.prems show ?thesis by simp
    next
      case False
      with Cons.prems have r: "visit_neighbors ys (v @ [y], q @ [y]) = (v', q')"
        by (simp add: set_add_def)
      have yU: "y \<in> U - set v" using False Cons.prems by auto
      have fin: "finite (U - set v)" using Cons.prems by simp
      have eq: "U - set (v @ [y]) = (U - set v) - {y}" by auto
      have "card (U - set (v @ [y])) = card (U - set v) - 1"
        unfolding eq using yU fin by simp
      moreover have "card (U - set v) > 0" using yU fin by (auto simp: card_gt_0_iff)
      ultimately have "2 * card (U - set (v @ [y])) + length (q @ [y])
          \<le> 2 * card (U - set v) + length q" by simp
      moreover from Cons.IH[OF r] Cons.prems
      have "2 * card (U - set v') + length q' \<le> 2 * card (U - set (v @ [y])) + length (q @ [y])"
        by simp
      ultimately show ?thesis by linarith
    qed
  qed
  from 2 have cur: "current < length adj" and nb: "nbrs = adj ! current"
    by (auto simp: js_index_def split: if_splits)
  have "nbrs \<in> set adj" using cur nb by simp
  then have sub: "set nbrs \<subseteq> \<Union> (set ` set adj)" by blast
  have "2 * card (\<Union> (set ` set adj) - set visited') + length queue'
      \<le> 2 * card (\<Union> (set ` set adj) - set visited) + length queue"
    using step[OF _ sub] 2 by simp
  then show ?case by simp
qed

declare bfs_loop.simps [simp del]

text \<open>
  The loop over \<open>validMustHave\<close>, threading the set \<open>reachable\<close>. A seed whose index is
  already reachable is skipped; otherwise the visited set of its search is added. When
  \<open>tickerIndex[ticker]\<close> is an inherited function or object, it is in no set of indices, the
  search starts, and \<open>adj[current]\<close> is \<open>undefined\<close> for that value: iterating over it
  throws. The same holds for \<open>undefined\<close>.
\<close>

fun seed_loop ::
  "(string \<rightharpoonup> nat) \<Rightarrow> nat list list \<Rightarrow> string list \<Rightarrow> nat list \<Rightarrow> js_error + nat list" where
  "seed_loop ti adj [] reachable = Inr reachable"
| "seed_loop ti adj (ticker # rest) reachable =
     (case prop_read ti ticker of
        None \<Rightarrow> Inl TypeError
      | Some Inherited \<Rightarrow> Inl TypeError
      | Some (Index startIdx) \<Rightarrow>
          if startIdx \<in> set reachable then seed_loop ti adj rest reachable
          else (case bfs_loop adj [startIdx] [startIdx] of
                  Inl e \<Rightarrow> Inl e
                | Inr visited \<Rightarrow> seed_loop ti adj rest (fold set_add visited reachable)))"

subsection \<open>All connected components\<close>

text \<open>
  The inner search of the component enumeration works on the array \<open>componentOf\<close>, filled
  with \<open>-1\<close>. Reading it outside its bounds gives \<open>undefined\<close>, which is not \<open>-1\<close>.
\<close>

fun mark_neighbors :: "nat \<Rightarrow> nat list \<Rightarrow> int list \<times> nat list \<Rightarrow> int list \<times> nat list" where
  "mark_neighbors componentId [] (componentOf, queue) = (componentOf, queue)"
| "mark_neighbors componentId (x # xs) (componentOf, queue) =
     mark_neighbors componentId xs
       (if js_index componentOf x = Some (- 1)
        then (componentOf[x := int componentId], queue @ [x])
        else (componentOf, queue))"

function comp_loop ::
  "nat list list \<Rightarrow> nat \<Rightarrow> int list \<Rightarrow> nat list \<Rightarrow> nat list \<Rightarrow> js_error + int list \<times> nat list" where
  "comp_loop adj componentId componentOf members [] = Inr (componentOf, members)"
| "comp_loop adj componentId componentOf members (current # queue) =
     (case js_index adj current of
        None \<Rightarrow> Inl TypeError
      | Some nbrs \<Rightarrow>
          (case mark_neighbors componentId nbrs (componentOf, queue) of
             (componentOf', queue') \<Rightarrow>
               comp_loop adj componentId componentOf' (members @ [current]) queue'))"
  by pat_completeness auto
termination
proof (relation "measure (\<lambda>(adj, componentId, componentOf, members, queue).
          2 * length (filter (\<lambda>c. c = - 1) componentOf) + length queue)", goal_cases)
  case 1
  show ?case by simp
next
  case (2 adj componentId componentOf members current queue nbrs componentOf' queue')
  have upd: "length (filter (\<lambda>c. c = - 1) (co[k := int cid])) + 1
      = length (filter (\<lambda>c. c = - 1) co)"
    if "k < length co" and "co ! k = - 1" for co :: "int list" and k cid
    using that
  proof (induction co arbitrary: k)
    case Nil
    then show ?case by simp
  next
    case (Cons a as)
    then show ?case by (cases k) auto
  qed
  have step: "\<And>co q co' q'. mark_neighbors componentId xs (co, q) = (co', q') \<Longrightarrow>
      2 * length (filter (\<lambda>c. c = - 1) co') + length q'
        \<le> 2 * length (filter (\<lambda>c. c = - 1) co) + length q"
    for xs :: "nat list"
  proof (induction xs)
    case Nil
    then show ?case by simp
  next
    case (Cons y ys)
    show ?case
    proof (cases "js_index co y = Some (- 1)")
      case False
      with Cons.prems have "mark_neighbors componentId ys (co, q) = (co', q')" by simp
      from Cons.IH[OF this] show ?thesis .
    next
      case True
      then have yl: "y < length co" and yv: "co ! y = - 1"
        by (auto simp: js_index_def split: if_splits)
      from True Cons.prems
      have r: "mark_neighbors componentId ys (co[y := int componentId], q @ [y]) = (co', q')"
        by simp
      from Cons.IH[OF r] upd[OF yl yv, of componentId] show ?thesis by simp
    qed
  qed
  from step[of nbrs componentOf queue componentOf' queue'] 2 show ?case by simp
qed

declare comp_loop.simps [simp del]

text \<open>The component object pushed after each search.\<close>

definition make_component :: "string list \<Rightarrow> string list \<Rightarrow> nat \<Rightarrow> nat list \<Rightarrow> component" where
  "make_component tks vmh componentId members =
     \<lparr> comp_id = componentId,
       indices = members,
       comp_tickers = map (\<lambda>idx. tks ! idx) members,
       comp_size = length members,
       containsMustHave = list_ex (\<lambda>idx. tks ! idx \<in> set vmh) members \<rparr>"

text \<open>
  The loop \<open>for (let i = 0; i < n; i++)\<close> on the state (componentOf, componentId, components).
  Both arrays are created with length \<open>n\<close>, so \<open>componentOf[i]\<close> and \<open>adj[i]\<close> are in range.
\<close>

fun component_scan ::
  "nat list list \<Rightarrow> string list \<Rightarrow> string list \<Rightarrow> nat list \<Rightarrow>
   int list \<times> nat \<times> component list \<Rightarrow> js_error + int list \<times> nat \<times> component list" where
  "component_scan adj tks vmh [] st = Inr st"
| "component_scan adj tks vmh (i # is) (componentOf, componentId, comps) =
     (if componentOf ! i \<noteq> - 1 then component_scan adj tks vmh is (componentOf, componentId, comps)
      else if length (adj ! i) = 0
        then component_scan adj tks vmh is (componentOf, componentId, comps)
      else (case comp_loop adj componentId (componentOf[i := int componentId]) [] [i] of
              Inl e \<Rightarrow> Inl e
            | Inr (componentOf', members) \<Rightarrow>
                component_scan adj tks vmh is
                  (componentOf', componentId + 1,
                   comps @ [make_component tks vmh componentId members])))"

text \<open>
  The comparator of \<open>components.sort\<close>: must-have components first (the booleans subtract as
  0 and 1), then descending size.
\<close>

definition component_cmp :: "component \<Rightarrow> component \<Rightarrow> int" where
  "component_cmp a b =
     (if containsMustHave a \<noteq> containsMustHave b
      then of_bool (containsMustHave b) - of_bool (containsMustHave a)
      else int (comp_size b) - int (comp_size a))"

subsection \<open>detectCluster\<close>

text \<open>
  The function body. Its two sort calls, \<open>clusterTickers.sort()\<close> and
  \<open>components.sort(cmp)\<close>, run whatever implementation of \<open>Array.prototype.sort\<close> the
  engine has; \<open>detectCluster_with\<close> takes the two as parameters. Every index in
  \<open>reachable\<close> and in a component has passed the \<open>adj[current]\<close> access and is below \<open>n\<close>,
  so \<open>tickers[idx]\<close> is in range.
\<close>

definition detectCluster_with ::
  "((component \<Rightarrow> component \<Rightarrow> int) \<Rightarrow> component list \<Rightarrow> component list) \<Rightarrow>
   (string list \<Rightarrow> string list) \<Rightarrow>
   corrData \<Rightarrow> string list \<Rightarrow> real \<Rightarrow> js_error + clusterResult" where
  "detectCluster_with sort_cmp sort_default cd mustHaveTickers th =
     (let n = length (tickers cd);
          vmh = filter (\<lambda>t. prop_read (tickerIndex cd) t \<noteq> None) mustHaveTickers
      in if length vmh = 0
         then Inr \<lparr> clusterTickers = [], components = [],
                    error = Some ''None of the must-have tickers found in data'',
                    validMustHave = None, threshold = None, totalNodes = None,
                    nodesAboveThreshold = None \<rparr>
         else (case buildAdj (matrix cd) th n of
                 Inl e \<Rightarrow> Inl e
               | Inr adj \<Rightarrow>
             (case seed_loop (tickerIndex cd) adj vmh [] of
                 Inl e \<Rightarrow> Inl e
               | Inr reachable \<Rightarrow>
             (case component_scan adj (tickers cd) vmh [0..<n] (replicate n (- 1), 0, []) of
                 Inl e \<Rightarrow> Inl e
               | Inr (componentOf, componentId, comps) \<Rightarrow>
                   Inr \<lparr> clusterTickers = sort_default (map (\<lambda>idx. tickers cd ! idx) reachable),
                         components = sort_cmp component_cmp comps,
                         error = None,
                         validMustHave = Some vmh,
                         threshold = Some th,
                         totalNodes = Some n,
                         nodesAboveThreshold = Some (length reachable) \<rparr>))))"

text \<open>
  \<open>detectCluster\<close> with the sorts fixed: stable insertion sort by the comparator, and for
  \<open>clusterTickers.sort()\<close>, which has no comparator, the ascending order of strings, code
  unit by code unit, which is the lexicographic order on character lists.
\<close>

definition detectCluster :: "corrData \<Rightarrow> string list \<Rightarrow> real \<Rightarrow> js_error + clusterResult" where
  "detectCluster = detectCluster_with array_sort sort"

section \<open>Specification-side notions for the samplers\<close>

text \<open>
  The latency list and the frame-timestamp list that a run of \<open>k\<close> trials accumulates.
\<close>

definition trial_latencies :: "(nat \<Rightarrow> real \<times> real) \<Rightarrow> nat \<Rightarrow> real list" where
  "trial_latencies clock k = map (\<lambda>i. snd (clock i) - fst (clock i)) [0..<k]"

definition trial_stamps :: "(nat \<Rightarrow> real \<times> real) \<Rightarrow> nat \<Rightarrow> real list" where
  "trial_stamps clock k = map (\<lambda>i. snd (clock i)) [0..<k]"

text \<open>
  The specification's percentile: the element at index \<open>floor(q * len)\<close> of the list sorted
  ascending.
\<close>

definition nearest_rank :: "real \<Rightarrow> real list \<Rightarrow> real" where
  "nearest_rank q xs = sort xs ! nat \<lfloor>q * real (length xs)\<rfloor>"

text \<open>A sample run: trial \<open>i\<close> starts at \<open>100 i\<close> and its frame completes \<open>20 - 3 i\<close> later.\<close>

definition demo_clock :: "nat \<Rightarrow> real \<times> real" where
  "demo_clock i = (100 * real i, 100 * real i + 20 - 3 * real i)"

text \<open>
  Property access on a resolved value, as the callers do (\<open>brushStats.p50\<close>,
  \<open>brushStats.fps\<close>): a missing property reads as \<open>undefined\<close>.
\<close>

definition stats_p50 :: "resolved \<Rightarrow> real option" where
  "stats_p50 r = (case r of Number x \<Rightarrow> None | Hover s \<Rightarrow> p50 s | Brush s \<Rightarrow> p50 s)"

definition stats_p95 :: "resolved \<Rightarrow> real option" where
  "stats_p95 r = (case r of Number x \<Rightarrow> None | Hover s \<Rightarrow> p95 s | Brush s \<Rightarrow> p95 s)"

definition stats_fps :: "resolved \<Rightarrow> jsnum option" where
  "stats_fps r = (case r of Number x \<Rightarrow> None | Hover s \<Rightarrow> None | Brush s \<Rightarrow> Some (fps s))"

text \<open>
  The frame rate of the specification over the reals, \<open>spec_fps\<close>, and what a brush
  sampler returns, \<open>rounded_fps\<close>: \<open>Math.round\<close> of the same quotient taken in double
  arithmetic on the first and last frame timestamp.
\<close>

definition rounded_fps :: "real list \<Rightarrow> jsnum" where
  "rounded_fps stamps =
     (if length stamps > 1
      then math_round
             (js_div (Num 1000)
                (js_div (js_sub (last stamps) (hd stamps)) (Num (real (length stamps - 1)))))
      else Num 0)"

definition spec_fps :: "real list \<Rightarrow> real" where
  "spec_fps stamps =
     (if length stamps > 1
      then 1000 / ((last stamps - hd stamps) / real (length stamps - 1))
      else 0)"

text \<open>
  A run of four trials whose frames complete at 100, 233, 366 and 500: over the reals the
  rate is exactly 7.5.
\<close>

definition half_clock :: "nat \<Rightarrow> real \<times> real" where
  "half_clock i = (0, 100 + 133 * real i + (if 3 \<le> i then 1 else 0))"

section \<open>Specification-side notions for cluster detection\<close>

text \<open>The directed edge relation that an adjacency array represents.\<close>

definition adj_rel :: "nat list list \<Rightarrow> (nat \<times> nat) set" where
  "adj_rel adj = {(x, y). x < length adj \<and> y \<in> set (adj ! x)}"

text \<open>
  The threshold graph of a matrix read as symmetric: two different nodes are joined iff the
  entry above the diagonal passes the test.
\<close>

definition qualifying_edge :: "real list list \<Rightarrow> real \<Rightarrow> nat \<Rightarrow> nat \<Rightarrow> bool" where
  "qualifying_edge m th x y = (x \<noteq> y \<and> edge_test m th (min x y) (max x y) = Inr True)"

text \<open>The nodes that the array \<open>componentOf\<close> has given a component.\<close>

definition assigned :: "int list \<Rightarrow> nat set" where
  "assigned co = {k. k < length co \<and> co ! k \<noteq> - 1}"

text \<open>
  What is to hold of every enumerated component: its member list is duplicate-free and starts
  with its smallest member, a node with at least one neighbour; its members are exactly the
  nodes connected to that node; and its derived fields are computed from the member list.
\<close>

definition component_ok :: "nat list list \<Rightarrow> string list \<Rightarrow> string list \<Rightarrow> component \<Rightarrow> bool" where
  "component_ok adj tks vmh c \<longleftrightarrow>
     indices c \<noteq> [] \<and> distinct (indices c)
     \<and> set (indices c) = (adj_rel adj)\<^sup>* `` {hd (indices c)}
     \<and> hd (indices c) < length adj \<and> adj ! hd (indices c) \<noteq> []
     \<and> (\<forall>k \<in> set (indices c). hd (indices c) \<le> k)
     \<and> c = make_component tks vmh (comp_id c) (indices c)"

text \<open>The invariant of the enumeration loop.\<close>

definition scan_inv ::
  "nat list list \<Rightarrow> string list \<Rightarrow> string list \<Rightarrow> int list \<Rightarrow> nat \<Rightarrow> component list \<Rightarrow> bool" where
  "scan_inv adj tks vmh co cid comps \<longleftrightarrow>
     length co = length adj
     \<and> assigned co = \<Union> (set ` indices ` set comps)
     \<and> adj_rel adj `` assigned co \<subseteq> assigned co
     \<and> (\<forall>c \<in> set comps. component_ok adj tks vmh c)
     \<and> map comp_id comps = [0..<cid]
     \<and> sorted_wrt (<) (map (\<lambda>c. hd (indices c)) comps)"

text \<open>
  Sample inputs. \<open>skew3\<close> is a matrix that is not symmetric. \<open>ex4\<close> is the scenario of
  four identifiers with the edges A-B and C-D at threshold 0.5. In \<open>ex_iso\<close> the
  identifier A has no qualifying edge, while B and C are joined.
\<close>

definition skew3 :: "real list list" where
  "skew3 = [[1, 0.9, 0.1], [0, 1, 0.2], [0.8, 0.7, 1]]"

definition ex4 :: corrData where
  "ex4 = \<lparr> tickers = [''A'', ''B'', ''C'', ''D''],
           matrix = [[1, 0.7, 0.1, 0.2], [0.7, 1, 0.3, 0.1], [0.1, 0.3, 1, - 0.6], [0.2, 0.1, - 0.6, 1]],
           tickerIndex = buildTickerIndex [''A'', ''B'', ''C'', ''D''] \<rparr>"

definition ex_iso :: corrData where
  "ex_iso = \<lparr> tickers = [''A'', ''B'', ''C''],
              matrix = [[1, 0.1, 0.2], [0.1, 1, 0.8], [0.2, 0.8, 1]],
              tickerIndex = buildTickerIndex [''A'', ''B'', ''C''] \<rparr>"

definition seed_error_result :: clusterResult where
  "seed_error_result =
     \<lparr> clusterTickers = [], components = [],
       error = Some ''None of the must-have tickers found in data'',
       validMustHave = None, threshold = None, totalNodes = None,
       nodesAboveThreshold = None \<rparr>"

text \<open>
  Nine identifiers with the edges A-B, C-D, E-F, F-G and H-I.
\<close>

definition ex9 :: corrData where
  "ex9 = \<lparr> tickers = [''A'', ''B'', ''C'', ''D'', ''E'', ''F'', ''G'', ''H'', ''I''],
           matrix = [[1, 0.9, 0, 0, 0, 0, 0, 0, 0],
                [0.9, 1, 0, 0, 0, 0, 0, 0, 0],
                [0, 0, 1, 0.9, 0, 0, 0, 0, 0],
                [0, 0, 0.9, 1, 0, 0, 0, 0, 0],
                [0, 0, 0, 0, 1, 0.9, 0, 0, 0],
                [0, 0, 0, 0, 0.9, 1, 0.9, 0, 0],
                [0, 0, 0, 0, 0, 0.9, 1, 0, 0],
                [0, 0, 0, 0, 0, 0, 0, 1, 0.9],
                [0, 0, 0, 0, 0, 0, 0, 0.9, 1]],
           tickerIndex = buildTickerIndex [''A'', ''B'', ''C'', ''D'', ''E'', ''F'', ''G'', ''H'', ''I''] \<rparr>"

text \<open>The results of the sample runs.\<close>

definition ex_iso_result :: clusterResult where
  "ex_iso_result =
     \<lparr> clusterTickers = [''A''],
       components = [\<lparr> comp_id = 0, indices = [1, 2], comp_tickers = [''B'', ''C''],
                       comp_size = 2, containsMustHave = False \<rparr>],
       error = None, validMustHave = Some [''A''], threshold = Some (1 / 2),
       totalNodes = Some 3, nodesAboveThreshold = Some 1 \<rparr>"

definition ex4_result :: clusterResult where
  "ex4_result =
     \<lparr> clusterTickers = [''A'', ''B''],
       components = [\<lparr> comp_id = 0, indices = [0, 1], comp_tickers = [''A'', ''B''],
                       comp_size = 2, containsMustHave = True \<rparr>,
                     \<lparr> comp_id = 1, indices = [2, 3], comp_tickers = [''C'', ''D''],
                       comp_size = 2, containsMustHave = False \<rparr>],
       error = None, validMustHave = Some [''A''], threshold = Some (1 / 2),
       totalNodes = Some 4, nodesAboveThreshold = Some 2 \<rparr>"

definition ex4_D_result :: clusterResult where
  "ex4_D_result =
     \<lparr> clusterTickers = [''C'', ''D''],
       components = [\<lparr> comp_id = 1, indices = [2, 3], comp_tickers = [''C'', ''D''],
                       comp_size = 2, containsMustHave = True \<rparr>,
                     \<lparr> comp_id = 0, indices = [0, 1], comp_tickers = [''A'', ''B''],
                       comp_size = 2, containsMustHave = False \<rparr>],
       error = None, validMustHave = Some [''D''], threshold = Some (1 / 2),
       totalNodes = Some 4, nodesAboveThreshold = Some 2 \<rparr>"

definition ex9_result :: clusterResult where
  "ex9_result =
     \<lparr> clusterTickers = [''A'', ''B''],
       components = [\<lparr> comp_id = 0, indices = [0, 1], comp_tickers = [''A'', ''B''],
                       comp_size = 2, containsMustHave = True \<rparr>,
                     \<lparr> comp_id = 2, indices = [4, 5, 6], comp_tickers = [''E'', ''F'', ''G''],
                       comp_size = 3, containsMustHave = False \<rparr>,
                     \<lparr> comp_id = 1, indices = [2, 3], comp_tickers = [''C'', ''D''],
                       comp_size = 2, containsMustHave = False \<rparr>,
                     \<lparr> comp_id = 3, indices = [7, 8], comp_tickers = [''H'', ''I''],
                       comp_size = 2, containsMustHave = False \<rparr>],
       error = None, validMustHave = Some [''A''], threshold = Some (1 / 2),
       totalNodes = Some 9, nodesAboveThreshold = Some 2 \<rparr>"

definition ex_iso_AB_result :: clusterResult where
  "ex_iso_AB_result =
     \<lparr> clusterTickers = [''A'', ''B'', ''C''],
       components = [\<lparr> comp_id = 0, indices = [1, 2], comp_tickers = [''B'', ''C''],
                       comp_size = 2, containsMustHave = True \<rparr>],
       error = None, validMustHave = Some [''B'', ''A''], threshold = Some (1 / 2),
       totalNodes = Some 3, nodesAboveThreshold = Some 3 \<rparr>"

text \<open>
  The components of a list that hold a given node, and the deduplicated, ascending-sorted
  union of lists of identifiers.
\<close>

definition components_containing :: "nat \<Rightarrow> component list \<Rightarrow> component list" where
  "components_containing x cs = filter (\<lambda>c. x \<in> set (indices c)) cs"

definition sorted_union :: "string list list \<Rightarrow> string list" where
  "sorted_union xss = sort (remdups (concat xss))"

text \<open>
  What ECMAScript requires of \<open>Array.prototype.sort\<close>. With a comparator that is
  consistent, the result is a rearrangement of the array, ordered by the comparator, and the
  sort is stable: elements that compare as equal keep their order. Without a comparator,
  strings end up in ascending order.
\<close>

definition es_sort_cmp :: "(('a \<Rightarrow> 'a \<Rightarrow> int) \<Rightarrow> 'a list \<Rightarrow> 'a list) \<Rightarrow> ('a \<Rightarrow> 'a \<Rightarrow> int) \<Rightarrow> bool" where
  "es_sort_cmp srt cmp \<longleftrightarrow>
     (\<forall>xs. mset (srt cmp xs) = mset xs
         \<and> sorted_wrt (\<lambda>a b. cmp a b \<le> 0) (srt cmp xs)
         \<and> (\<forall>k. filter (\<lambda>x. cmp x k \<le> 0 \<and> cmp k x \<le> 0) (srt cmp xs)
                = filter (\<lambda>x. cmp x k \<le> 0 \<and> cmp k x \<le> 0) xs))"

definition es_sort_default :: "(string list \<Rightarrow> string list) \<Rightarrow> bool" where
  "es_sort_default srt \<longleftrightarrow> (\<forall>xs. mset (srt xs) = mset xs \<and> sorted (srt xs))"

text \<open>
  The sort key that the component comparator compares by, and two sort procedures other than
  the ones \<open>detectCluster\<close> fixes: the library's sort by that key, and the sort of the
  reversed array.
\<close>

definition component_key :: "component \<Rightarrow> nat \<times> int" where
  "component_key c = (if containsMustHave c then 0 else 1, - int (comp_size c))"

definition key_sort :: "(component \<Rightarrow> component \<Rightarrow> int) \<Rightarrow> component list \<Rightarrow> component list" where
  "key_sort cmp xs = sort_key component_key xs"

definition reversing_sort :: "string list \<Rightarrow> string list" where
  "reversing_sort xs = sort (rev xs)"

section \<open>Properties of the latency samplers\<close>

lemma insert_cmp_numeric: "insert_cmp numeric_cmp x xs = insort x xs"
  by (induction xs) (auto simp: numeric_cmp_def)

lemma array_sort_numeric: "array_sort numeric_cmp xs = sort xs"
  by (induction xs) (auto simp: array_sort_def insert_cmp_numeric sort_key_def)

lemma length_array_sort_numeric: "length (array_sort numeric_cmp xs) = length xs"
  by (simp add: array_sort_numeric)

lemma hoverNext_run:
  "hoverNext samples clock i ls =
     (Hover (resolveHover (ls @ map (\<lambda>k. snd (clock k) - fst (clock k)) [i..<nat samples])),
      max i (nat samples))"
proof (induction samples clock i ls rule: hoverNext.induct)
  case (1 samples clock i ls)
  show ?case
  proof (cases "int i \<ge> samples")
    case True
    then have "max i (nat samples) = i" by linarith
    with True show ?thesis by (subst hoverNext.simps) simp
  next
    case False
    then have lt: "i < nat samples" by linarith
    obtain t0 t1 where c: "clock i = (t0, t1)" by (cases "clock i")
    have "hoverNext samples clock i ls = hoverNext samples clock (i + 1) (ls @ [t1 - t0])"
      using False c by (subst hoverNext.simps) simp
    also have "\<dots> = (Hover (resolveHover ((ls @ [t1 - t0]) @
        map (\<lambda>k. snd (clock k) - fst (clock k)) [i + 1..<nat samples])), max (i + 1) (nat samples))"
      using "1.IH"[OF False c[symmetric]] by simp
    finally show ?thesis using lt c by (simp add: upt_conv_Cons max_def)
  qed
qed

lemma brushNext_run:
  "brushNext samples clock i ls ss =
     (Brush (resolveBrush (ls @ map (\<lambda>k. snd (clock k) - fst (clock k)) [i..<nat samples])
                          (ss @ map (\<lambda>k. snd (clock k)) [i..<nat samples])),
      max i (nat samples))"
proof (induction samples clock i ls ss rule: brushNext.induct)
  case (1 samples clock i ls ss)
  show ?case
  proof (cases "int i \<ge> samples")
    case True
    then have "max i (nat samples) = i" by linarith
    with True show ?thesis by (subst brushNext.simps) simp
  next
    case False
    then have lt: "i < nat samples" by linarith
    obtain t0 t1 where c: "clock i = (t0, t1)" by (cases "clock i")
    have "brushNext samples clock i ls ss = brushNext samples clock (i + 1) (ls @ [t1 - t0]) (ss @ [t1])"
      using False c by (subst brushNext.simps) simp
    also have "\<dots> = (Brush (resolveBrush ((ls @ [t1 - t0]) @
        map (\<lambda>k. snd (clock k) - fst (clock k)) [i + 1..<nat samples])
        ((ss @ [t1]) @ map (\<lambda>k. snd (clock k)) [i + 1..<nat samples])), max (i + 1) (nat samples))"
      using "1.IH"[OF False c[symmetric]] by simp
    finally show ?thesis using lt c by (simp add: upt_conv_Cons max_def)
  qed
qed

lemma rank_half_in_range: "0 < n \<Longrightarrow> nat \<lfloor>real n * 0.5\<rfloor> < n"
proof -
  assume "0 < n"
  then have "real n * 0.5 < real n" by simp
  then have "\<lfloor>real n * 0.5\<rfloor> < int n" by (simp add: floor_less_iff)
  moreover have "0 \<le> \<lfloor>real n * 0.5\<rfloor>" by simp
  ultimately show ?thesis by (simp add: nat_less_iff)
qed

lemma rank_95_in_range: "0 < n \<Longrightarrow> nat \<lfloor>real n * 0.95\<rfloor> < n"
proof -
  assume "0 < n"
  then have "real n * 0.95 < real n" by simp
  then have "\<lfloor>real n * 0.95\<rfloor> < int n" by (simp add: floor_less_iff)
  moreover have "0 \<le> \<lfloor>real n * 0.95\<rfloor>" by simp
  ultimately show ?thesis by (simp add: nat_less_iff)
qed

lemma resolveHover_ranks:
  assumes "ls \<noteq> []"
  shows "p50 (resolveHover ls) = Some (nearest_rank 0.5 ls)"
    and "p95 (resolveHover ls) = Some (nearest_rank 0.95 ls)"
  using assms rank_half_in_range[of "length ls"] rank_95_in_range[of "length ls"]
  by (simp_all add: resolveHover_def Let_def array_sort_numeric js_index_def nearest_rank_def mult.commute)

lemma resolveBrush_ranks:
  assumes "ls \<noteq> []"
  shows "p50 (resolveBrush ls ss) = Some (nearest_rank 0.5 ls)"
    and "p95 (resolveBrush ls ss) = Some (nearest_rank 0.95 ls)"
  using assms rank_half_in_range[of "length ls"] rank_95_in_range[of "length ls"]
  by (simp_all add: resolveBrush_def Let_def array_sort_numeric js_index_def nearest_rank_def mult.commute)

lemma trial_latencies_nonempty: "0 < k \<Longrightarrow> trial_latencies clock k \<noteq> []"
  by (simp add: trial_latencies_def)

lemma measureHoverLatency_run:
  "0 < rects_size \<Longrightarrow> measureHoverLatency rects_size clock =
     (Hover (resolveHover (trial_latencies clock (min 200 rects_size))), min 200 rects_size)"
  by (simp add: measureHoverLatency_def hoverNext_run trial_latencies_def min_def)

lemma measureBrushLatency_run:
  "0 < rects_size \<Longrightarrow> measureBrushLatency rects_size n clock =
     (Brush (resolveBrush (trial_latencies clock (nat (min 100 n)))
                          (trial_stamps clock (nat (min 100 n)))), nat (min 100 n))"
  by (simp add: measureBrushLatency_def brushNext_run trial_latencies_def trial_stamps_def)

lemma measureBrush_run:
  "0 < rects_size \<Longrightarrow> measureBrush rects_size n clock =
     (Brush (resolveBrush (trial_latencies clock (nat (min 60 n)))
                          (trial_stamps clock (nat (min 60 n)))), nat (min 60 n))"
  by (simp add: measureBrush_def brushNext_run trial_latencies_def trial_stamps_def)

lemma prismMeasureBrush_run:
  "0 < rects_size \<Longrightarrow> prismMeasureBrush rects_size T clock =
     (Brush (resolveBrush (trial_latencies clock (nat (min 50 T)))
                          (trial_stamps clock (nat (min 50 T)))), nat (min 50 T))"
  by (simp add: prismMeasureBrush_def brushNext_run trial_latencies_def trial_stamps_def)

text \<open>
  Claim C6. A benchmark run that collects a nonempty latency list (the target has elements and
  the trial cap is positive) returns as \<open>p50\<close> the element at index \<open>floor(0.5 * len)\<close> and
  as \<open>p95\<close> the element at index \<open>floor(0.95 * len)\<close> of the ascending-sorted latency list;
  no interpolation takes place. This holds for \<open>measureHoverLatency\<close>,
  \<open>measureBrushLatency\<close> and both \<open>measureBrush\<close> variants.
\<close>

theorem latency_percentiles_nearest_rank:
  assumes "0 < rects_size" and "0 < n"
  shows "stats_p50 (fst (measureHoverLatency rects_size clock))
           = Some (nearest_rank 0.5 (trial_latencies clock (min 200 rects_size)))
       \<and> stats_p95 (fst (measureHoverLatency rects_size clock))
           = Some (nearest_rank 0.95 (trial_latencies clock (min 200 rects_size)))
       \<and> stats_p50 (fst (measureBrushLatency rects_size n clock))
           = Some (nearest_rank 0.5 (trial_latencies clock (nat (min 100 n))))
       \<and> stats_p95 (fst (measureBrushLatency rects_size n clock))
           = Some (nearest_rank 0.95 (trial_latencies clock (nat (min 100 n))))
       \<and> stats_p50 (fst (measureBrush rects_size n clock))
           = Some (nearest_rank 0.5 (trial_latencies clock (nat (min 60 n))))
       \<and> stats_p95 (fst (measureBrush rects_size n clock))
           = Some (nearest_rank 0.95 (trial_latencies clock (nat (min 60 n))))
       \<and> stats_p50 (fst (prismMeasureBrush rects_size n clock))
           = Some (nearest_rank 0.5 (trial_latencies clock (nat (min 50 n))))
       \<and> stats_p95 (fst (prismMeasureBrush rects_size n clock))
           = Some (nearest_rank 0.95 (trial_latencies clock (nat (min 50 n))))"
proof -
  have h: "trial_latencies clock (min 200 rects_size) \<noteq> []"
    using assms by (intro trial_latencies_nonempty) simp
  have b1: "trial_latencies clock (nat (min 100 n)) \<noteq> []"
    using assms by (intro trial_latencies_nonempty) simp
  have b2: "trial_latencies clock (nat (min 60 n)) \<noteq> []"
    using assms by (intro trial_latencies_nonempty) simp
  have b3: "trial_latencies clock (nat (min 50 n)) \<noteq> []"
    using assms by (intro trial_latencies_nonempty) simp
  show ?thesis
    using assms(1)
    by (simp add: stats_p50_def stats_p95_def measureHoverLatency_run measureBrushLatency_run
        measureBrush_run prismMeasureBrush_run
        resolveHover_ranks[OF h] resolveBrush_ranks[OF b1] resolveBrush_ranks[OF b2]
        resolveBrush_ranks[OF b3])
qed

lemma demo_latencies: "trial_latencies demo_clock 3 = [20, 17, 14]"
  by (simp add: trial_latencies_def demo_clock_def upt_conv_Cons)

lemma demo_stamps: "trial_stamps demo_clock 3 = [20, 117, 214]"
  by (simp add: trial_stamps_def demo_clock_def upt_conv_Cons)

lemma demo_rank_50: "nearest_rank (1 / 2) [20, 17, 14] = 17"
proof -
  have "\<lfloor>(3::real) / 2\<rfloor> = 1" by linarith
  then show ?thesis by (simp add: nearest_rank_def)
qed

lemma demo_rank_95: "nearest_rank (19 / 20) [20, 17, 14] = 20"
proof -
  have "\<lfloor>(285::real) / 100\<rfloor> = 2" by linarith
  then show ?thesis by (simp add: nearest_rank_def)
qed

text \<open>
  The statement of C6 at a run of three trials whose latencies arrive as 20, 17, 14.
\<close>

theorem latency_percentiles_nearest_rank_witness:
  "stats_p50 (fst (measureHoverLatency 3 demo_clock)) = Some 17
   \<and> stats_p95 (fst (measureHoverLatency 3 demo_clock)) = Some 20
   \<and> stats_p50 (fst (measureBrushLatency 3 3 demo_clock)) = Some 17
   \<and> stats_p95 (fst (measureBrushLatency 3 3 demo_clock)) = Some 20
   \<and> stats_p50 (fst (measureBrush 3 3 demo_clock)) = Some 17
   \<and> stats_p95 (fst (measureBrush 3 3 demo_clock)) = Some 20
   \<and> stats_p50 (fst (prismMeasureBrush 3 3 demo_clock)) = Some 17
   \<and> stats_p95 (fst (prismMeasureBrush 3 3 demo_clock)) = Some 20"
  using latency_percentiles_nearest_rank[of 3 3 demo_clock]
  by (simp add: demo_latencies demo_rank_50 demo_rank_95)

subsection \<open>Frame rate\<close>

lemma floor_log2_eq:
  assumes "2 ^ k \<le> \<bar>x\<bar>" and "\<bar>x\<bar> < 2 ^ Suc k"
  shows "\<lfloor>log 2 \<bar>x\<bar>\<rfloor> = int k"
proof (rule floor_unique)
  have "(0::real) < 2 ^ k" by simp
  with assms(1) have pos: "0 < \<bar>x\<bar>" by linarith
  have "2 powr real k \<le> \<bar>x\<bar>" using assms(1) by (simp add: powr_realpow)
  then have "real k \<le> log 2 \<bar>x\<bar>" using pos by (simp add: le_log_iff)
  then show "of_int (int k) \<le> log 2 \<bar>x\<bar>" by simp
  have "\<bar>x\<bar> < 2 powr real (Suc k)" using assms(2) by (simp only: powr_realpow zero_less_numeral)
  then have "log 2 \<bar>x\<bar> < real (Suc k)" using pos by (simp add: log_less_iff)
  then show "log 2 \<bar>x\<bar> < of_int (int k) + 1" by simp
qed

text \<open>Between \<open>2^k\<close> and \<open>2^(k+1)\<close> a double is a multiple of \<open>2^(k-52)\<close>.\<close>

lemma to_double_normal:
  assumes "2 ^ k \<le> \<bar>x\<bar>" and "\<bar>x\<bar> < 2 ^ Suc k" and "k \<le> 52"
  shows "to_double x = of_int (round_even (x * 2 ^ (52 - k))) / 2 ^ (52 - k)"
proof -
  have "(0::real) < 2 ^ k" by simp
  with assms(1) have nz: "x \<noteq> 0" by linarith
  have e: "max \<lfloor>log 2 \<bar>x\<bar>\<rfloor> (- 1022) - 52 = - int (52 - k)"
    using floor_log2_eq[OF assms(1,2)] assms(3) by simp
  have q: "2 powr of_int (- int (52 - k)) = 1 / (2::real) ^ (52 - k)"
    by (simp add: powr_minus powr_realpow inverse_eq_divide)
  show ?thesis
    using nz unfolding to_double_def Let_def e q by simp
qed

lemma math_round_frame_rate: "math_round (frame_rate stamps) = rounded_fps stamps"
proof (cases "length stamps > 1")
  case True
  then have ne: "stamps \<noteq> []" by auto
  have l: "stamps ! (length stamps - 1) = last stamps" using ne by (simp add: last_conv_nth)
  have h: "stamps ! 0 = hd stamps" using ne by (simp add: hd_conv_nth)
  show ?thesis using True unfolding frame_rate_def rounded_fps_def l h by simp
next
  case False
  then show ?thesis by (simp add: frame_rate_def rounded_fps_def)
qed

lemma fps_resolveBrush: "fps (resolveBrush ls ss) = rounded_fps ss"
  by (simp add: resolveBrush_def Let_def math_round_frame_rate)

text \<open>The sample runs in double arithmetic, operation by operation.\<close>

lemma double_194: "to_double 194 = 194"
  using to_double_normal[of 7 194] by (simp add: round_even_def)

lemma double_97: "to_double 97 = 97"
  using to_double_normal[of 6 97] by (simp add: round_even_def)

lemma double_1000_97: "to_double (1000 / 97) = 5803607767230021 / 562949953421312"
  using to_double_normal[of 3 "1000 / 97"] by (simp add: round_even_def Let_def)

lemma demo_frame_rate: "frame_rate [20, 117, 214] = Num (5803607767230021 / 562949953421312)"
proof -
  have s: "js_sub 214 20 = Num 194" by (simp add: js_sub_def double_of_def double_194)
  have d: "js_div (Num 194) (Num 2) = Num 97" by (simp add: js_div_def double_of_def double_97)
  have f: "js_div (Num 1000) (Num 97) = Num (5803607767230021 / 562949953421312)"
    by (simp add: js_div_def double_of_def double_1000_97)
  show ?thesis by (simp add: frame_rate_def s d f)
qed

lemma demo_rounded_fps: "rounded_fps [20, 117, 214] = Num 10"
proof -
  have "\<lfloor>(5803607767230021::real) / 562949953421312 + 1 / 2\<rfloor> = 10" by linarith
  then show ?thesis
    unfolding math_round_frame_rate[symmetric] demo_frame_rate by simp
qed

lemma double_400: "to_double 400 = 400"
  using to_double_normal[of 8 400] by (simp add: round_even_def)

lemma double_400_3: "to_double (400 / 3) = 4691249611844267 / 35184372088832"
  using to_double_normal[of 7 "400 / 3"] by (simp add: round_even_def Let_def)

lemma double_1000_d: "to_double (35184372088832000 / 4691249611844267)
    = 8444249301319679 / 1125899906842624"
  using to_double_normal[of 2 "35184372088832000 / 4691249611844267"]
  by (simp add: round_even_def Let_def)

lemma half_frame_rate:
  "frame_rate [100, 233, 366, 500] = Num (8444249301319679 / 1125899906842624)"
proof -
  have s: "js_sub 500 100 = Num 400" by (simp add: js_sub_def double_of_def double_400)
  have d: "js_div (Num 400) (Num 3) = Num (4691249611844267 / 35184372088832)"
    by (simp add: js_div_def double_of_def double_400_3)
  have f: "js_div (Num 1000) (Num (4691249611844267 / 35184372088832))
      = Num (8444249301319679 / 1125899906842624)"
    by (simp add: js_div_def double_of_def double_1000_d)
  show ?thesis by (simp add: frame_rate_def s d f)
qed

lemma half_rounded_fps: "rounded_fps [100, 233, 366, 500] = Num 7"
proof -
  have "\<lfloor>(8444249301319679::real) / 1125899906842624 + 1 / 2\<rfloor> = 7" by linarith
  then show ?thesis
    unfolding math_round_frame_rate[symmetric] half_frame_rate by simp
qed

lemma half_stamps: "trial_stamps half_clock 4 = [100, 233, 366, 500]"
  by (simp add: trial_stamps_def half_clock_def upt_conv_Cons)

text \<open>
  Claim C7, as the code has it. A brush sampler run on a nonempty target returns
  \<open>Math.round\<close> of the frame rate computed in double arithmetic: with more than one frame
  timestamp, the nearest integer (halves upwards) to the double that
  \<open>1000 / ((last - first) / (count - 1))\<close> evaluates to, each subtraction and division
  rounding to the nearest double, or an infinity when the divisor is zero; with at most one
  timestamp, 0.
\<close>

theorem brush_fps_rounded:
  assumes "0 < rects_size"
  shows "stats_fps (fst (measureBrushLatency rects_size n clock))
           = Some (rounded_fps (trial_stamps clock (nat (min 100 n))))
       \<and> stats_fps (fst (measureBrush rects_size n clock))
           = Some (rounded_fps (trial_stamps clock (nat (min 60 n))))
       \<and> stats_fps (fst (prismMeasureBrush rects_size n clock))
           = Some (rounded_fps (trial_stamps clock (nat (min 50 n))))"
  using assms
  by (simp add: stats_fps_def measureBrushLatency_run measureBrush_run prismMeasureBrush_run
      fps_resolveBrush)

text \<open>
  The statement at four trials with frame timestamps 100, 233, 366, 500. Over the reals the
  rate is 7.5; in doubles \<open>400 / 3\<close> rounds up, the quotient by it is just below 7.5, and
  the samplers return 7.
\<close>

theorem brush_fps_rounded_witness:
  "spec_fps (trial_stamps half_clock 4) = 15 / 2
   \<and> stats_fps (fst (measureBrushLatency 4 4 half_clock)) = Some (Num 7)
   \<and> stats_fps (fst (measureBrush 4 4 half_clock)) = Some (Num 7)
   \<and> stats_fps (fst (prismMeasureBrush 4 4 half_clock)) = Some (Num 7)"
  using brush_fps_rounded[of 4 4 half_clock]
  by (simp add: half_stamps half_rounded_fps spec_fps_def)

text \<open>
  Claim C7 as worded (the returned \<open>fps\<close> equals the unrounded quotient) fails at three
  trials with frame timestamps 20, 117, 214: the quotient is \<open>1000 / 97\<close>, in doubles
  10.309278350515465, and the returned value is 10.
\<close>

theorem brush_fps_unrounded_counterexample:
  "stats_fps (fst (measureBrushLatency 3 3 demo_clock))
     \<noteq> Some (Num (spec_fps (trial_stamps demo_clock 3)))
   \<and> stats_fps (fst (measureBrushLatency 3 3 demo_clock))
     \<noteq> Some (frame_rate (trial_stamps demo_clock 3))"
proof -
  have "stats_fps (fst (measureBrushLatency 3 3 demo_clock)) = Some (Num 10)"
    by (simp add: stats_fps_def measureBrushLatency_run fps_resolveBrush demo_stamps demo_rounded_fps)
  moreover have "spec_fps (trial_stamps demo_clock 3) = 1000 / 97"
    by (simp add: demo_stamps spec_fps_def)
  moreover have "frame_rate (trial_stamps demo_clock 3)
      = Num (5803607767230021 / 562949953421312)"
    by (simp add: demo_stamps demo_frame_rate)
  ultimately show ?thesis by simp
qed

text \<open>
  Claim C8. On a target with zero elements the two samplers of matrix.js resolve with the bare
  number 0, whose \<open>p50\<close> field is \<open>undefined\<close>, whereas \<open>measureBrush\<close> of
  matrix-enriched.js and of PrismDynamic resolve with the record of three zeros. No trial is run
  in either case.
\<close>

theorem empty_target_resolves_bare_zero:
  "measureBrushLatency 0 100 demo_clock = (Number 0, 0)
   \<and> measureHoverLatency 0 demo_clock = (Number 0, 0)
   \<and> stats_p50 (fst (measureBrushLatency 0 100 demo_clock)) = None
   \<and> measureBrush 0 100 demo_clock = (Brush \<lparr> p50 = Some 0, p95 = Some 0, fps = Num 0 \<rparr>, 0)
   \<and> prismMeasureBrush 0 100 demo_clock
        = (Brush \<lparr> p50 = Some 0, p95 = Some 0, fps = Num 0 \<rparr>, 0)"
  by (simp add: measureBrushLatency_def measureHoverLatency_def measureBrush_def
      prismMeasureBrush_def stats_p50_def)

section \<open>Properties of cluster detection\<close>

subsection \<open>The adjacency array\<close>

lemma length_push_edge [simp]: "length (push_edge adj i j) = length adj"
  by (simp add: push_edge_def Let_def)

lemma adj_rel_push_edge:
  assumes "i < length adj" "j < length adj" "i \<noteq> j"
  shows "adj_rel (push_edge adj i j) = adj_rel adj \<union> {(i, j), (j, i)}"
  using assms
  by (auto simp: adj_rel_def push_edge_def Let_def nth_list_update split: if_splits)

lemma adj_inner_rel:
  assumes "adj_inner m th i js adj = Inr adj'"
    and "i < length adj" and "\<forall>j \<in> set js. j < length adj \<and> i \<noteq> j"
  shows "length adj' = length adj \<and>
         adj_rel adj' = adj_rel adj \<union> {(a, b). \<exists>j \<in> set js. edge_test m th i j = Inr True
                                          \<and> ((a, b) = (i, j) \<or> (a, b) = (j, i))}"
  using assms
proof (induction js arbitrary: adj)
  case Nil
  then show ?case by simp
next
  case (Cons j js)
  from Cons.prems(1) obtain b where b: "edge_test m th i j = Inr b"
    and rest: "adj_inner m th i js (if b then push_edge adj i j else adj) = Inr adj'"
    by (auto split: sum.splits)
  let ?adj1 = "if b then push_edge adj i j else adj"
  have l1: "length ?adj1 = length adj" by simp
  have r1: "adj_rel ?adj1 = adj_rel adj \<union> (if b then {(i, j), (j, i)} else {})"
    using Cons.prems adj_rel_push_edge[of i adj j] by simp
  from Cons.IH[OF rest] Cons.prems l1
  have ih: "length adj' = length adj" "adj_rel adj' = adj_rel ?adj1 \<union> {(a, b). \<exists>j \<in> set js.
      edge_test m th i j = Inr True \<and> ((a, b) = (i, j) \<or> (a, b) = (j, i))}"
    by auto
  show ?case
    unfolding ih r1 using b by (cases b) auto
qed

lemma adj_inner_ok:
  assumes "adj_inner m th i js adj = Inr adj'" and "j \<in> set js"
  shows "\<exists>b. edge_test m th i j = Inr b"
  using assms
  by (induction js arbitrary: adj) (auto split: sum.splits)

lemma adj_outer_rel:
  assumes "adj_outer m th n is adj = Inr adj'"
    and "n = length adj"
  shows "length adj' = length adj \<and>
         adj_rel adj' = adj_rel adj \<union> {(a, b). \<exists>i \<in> set is. \<exists>j. i < j \<and> j < n \<and> i < n \<and>
                 edge_test m th i j = Inr True \<and> ((a, b) = (i, j) \<or> (a, b) = (j, i))}"
  using assms
proof (induction "is" arbitrary: adj)
  case Nil
  then show ?case by simp
next
  case (Cons i "is")
  from Cons.prems(1) obtain adj1 where
    inner: "adj_inner m th i [i + 1..<n] adj = Inr adj1"
    and rest: "adj_outer m th n is adj1 = Inr adj'"
    by (auto split: sum.splits)
  show ?case
  proof (cases "i < n")
    case True
    have "length adj1 = length adj \<and>
         adj_rel adj1 = adj_rel adj \<union> {(a, b). \<exists>j \<in> set [i + 1..<n]. edge_test m th i j = Inr True
                                          \<and> ((a, b) = (i, j) \<or> (a, b) = (j, i))}"
      using adj_inner_rel[OF inner] True Cons.prems(2) by auto
    then have l1: "length adj1 = length adj"
      and r1: "adj_rel adj1 = adj_rel adj \<union> {(a, b). \<exists>j. i < j \<and> j < n \<and> i < n \<and>
          edge_test m th i j = Inr True \<and> ((a, b) = (i, j) \<or> (a, b) = (j, i))}"
      using True by auto
    from Cons.IH[OF rest] l1 Cons.prems(2)
    have ih: "length adj' = length adj1" "adj_rel adj' = adj_rel adj1 \<union> {(a, b). \<exists>i \<in> set is.
        \<exists>j. i < j \<and> j < n \<and> i < n \<and>
        edge_test m th i j = Inr True \<and> ((a, b) = (i, j) \<or> (a, b) = (j, i))}"
      by auto
    show ?thesis unfolding ih r1 l1 by auto
  next
    case False
    then have "[i + 1..<n] = []" by simp
    with inner have "adj_inner m th i [] adj = Inr adj1" by metis
    then have "adj1 = adj" by simp
    with Cons.IH[OF rest] Cons.prems(2) False show ?thesis by auto
  qed
qed

lemma adj_rel_replicate [simp]: "adj_rel (replicate n []) = {}"
  by (auto simp: adj_rel_def)

lemma buildAdj_rel:
  assumes "buildAdj m th n = Inr adj"
  shows "length adj = n"
    and "adj_rel adj = {(a, b). a < n \<and> b < n \<and> qualifying_edge m th a b}"
proof -
  from adj_outer_rel[OF assms[unfolded buildAdj_def]]
  have l: "length adj = n" and r: "adj_rel adj = {(a, b). \<exists>i \<in> set [0..<n]. \<exists>j. i < j \<and> j < n \<and> i < n \<and>
                 edge_test m th i j = Inr True \<and> ((a, b) = (i, j) \<or> (a, b) = (j, i))}"
    by auto
  show "length adj = n" by (rule l)
  show "adj_rel adj = {(a, b). a < n \<and> b < n \<and> qualifying_edge m th a b}"
  proof (rule set_eqI, clarify)
    fix a b
    show "(a, b) \<in> adj_rel adj \<longleftrightarrow> (a, b) \<in> {(a, b). a < n \<and> b < n \<and> qualifying_edge m th a b}"
    proof (cases a b rule: linorder_cases)
      case less
      then have "min a b = a" "max a b = b" by auto
      with less show ?thesis unfolding r qualifying_edge_def by auto
    next
      case equal
      then show ?thesis unfolding r qualifying_edge_def by auto
    next
      case greater
      then have "min a b = b" "max a b = a" by auto
      with greater show ?thesis unfolding r qualifying_edge_def by auto
    qed
  qed
qed

subsection \<open>Search from the seeds\<close>

lemma adj_rel_Image: "x < length adj \<Longrightarrow> adj_rel adj `` {x} = set (adj ! x)"
  by (auto simp: adj_rel_def)

lemma visit_neighbors_spec:
  "visit_neighbors xs (v, q) = (v', q') \<Longrightarrow>
     \<exists>new. v' = v @ new \<and> q' = q @ new \<and> set new = set xs - set v \<and> (distinct v \<longrightarrow> distinct v')"
proof (induction xs arbitrary: v q)
  case Nil
  then show ?case by simp
next
  case (Cons x xs)
  show ?case
  proof (cases "x \<in> set v")
    case True
    with Cons.prems have "visit_neighbors xs (v, q) = (v', q')" by simp
    from Cons.IH[OF this] True show ?thesis by auto
  next
    case False
    with Cons.prems have "visit_neighbors xs (v @ [x], q @ [x]) = (v', q')"
      by (simp add: set_add_def)
    from Cons.IH[OF this] obtain new where
      n: "v' = (v @ [x]) @ new" "q' = (q @ [x]) @ new" "set new = set xs - set (v @ [x])"
         "distinct (v @ [x]) \<longrightarrow> distinct v'"
      by blast
    show ?thesis
    proof (intro exI[of _ "x # new"] conjI)
      show "v' = v @ x # new" using n by simp
      show "q' = q @ x # new" using n by simp
      show "set (x # new) = set (x # xs) - set v" using n False by auto
      show "distinct v \<longrightarrow> distinct v'" using n False by auto
    qed
  qed
qed

lemma bfs_loop_spec:
  assumes "bfs_loop adj v q = Inr r"
    and "set q \<subseteq> set v"
    and "\<forall>x \<in> set v - set q. x < length adj \<and> adj_rel adj `` {x} \<subseteq> set v"
    and "distinct v"
  shows "set r = (adj_rel adj)\<^sup>* `` set v \<and> distinct r \<and> (\<forall>x \<in> set r. x < length adj)"
  using assms
proof (induction adj v q rule: bfs_loop.induct)
  case (1 adj visited)
  then have r: "r = visited" by (simp add: bfs_loop.simps)
  from 1 have "adj_rel adj `` set visited \<subseteq> set visited" by auto
  then have "(adj_rel adj)\<^sup>* `` set visited = set visited" by (rule Image_closed_trancl)
  with 1 r show ?case by auto
next
  case (2 adj visited current queue)
  from "2.prems"(1) obtain nbrs where nb: "js_index adj current = Some nbrs"
    by (auto simp: bfs_loop.simps split: option.splits)
  then have cur: "current < length adj" and nbrs: "nbrs = adj ! current"
    by (auto simp: js_index_def split: if_splits)
  obtain v' q' where vn: "visit_neighbors nbrs (visited, queue) = (v', q')"
    by (cases "visit_neighbors nbrs (visited, queue)")
  with "2.prems"(1) nb have run: "bfs_loop adj v' q' = Inr r"
    by (simp add: bfs_loop.simps)
  from visit_neighbors_spec[OF vn] obtain new where
    new: "v' = visited @ new" "q' = queue @ new" "set new = set nbrs - set visited"
      "distinct visited \<longrightarrow> distinct v'"
    by blast
  have succ: "adj_rel adj `` {current} = set nbrs" using cur nbrs by (simp add: adj_rel_Image)
  have cv: "current \<in> set visited" using "2.prems"(2) by auto
  have p1: "set q' \<subseteq> set v'" using new "2.prems"(2) by auto
  have p2: "\<forall>x \<in> set v' - set q'. x < length adj \<and> adj_rel adj `` {x} \<subseteq> set v'"
  proof
    fix x assume x: "x \<in> set v' - set q'"
    then have xv: "x \<in> set visited" "x \<notin> set queue" using new by auto
    show "x < length adj \<and> adj_rel adj `` {x} \<subseteq> set v'"
    proof (cases "x = current")
      case True
      then show ?thesis using succ cur new by auto
    next
      case False
      with xv have "x \<in> set visited - set (current # queue)" by simp
      with "2.prems"(3) have "x < length adj \<and> adj_rel adj `` {x} \<subseteq> set visited" by blast
      then show ?thesis using new by auto
    qed
  qed
  have p3: "distinct v'" using new "2.prems"(4) by simp
  from "2.IH"[OF nb vn[symmetric] run p1 p2 p3]
  have ih: "set r = (adj_rel adj)\<^sup>* `` set v'" "distinct r" "\<forall>x \<in> set r. x < length adj"
    by auto
  have "(adj_rel adj)\<^sup>* `` set v' = (adj_rel adj)\<^sup>* `` set visited"
  proof
    show "(adj_rel adj)\<^sup>* `` set visited \<subseteq> (adj_rel adj)\<^sup>* `` set v'"
      using new by auto
    show "(adj_rel adj)\<^sup>* `` set v' \<subseteq> (adj_rel adj)\<^sup>* `` set visited"
    proof
      fix y assume "y \<in> (adj_rel adj)\<^sup>* `` set v'"
      then obtain x where x: "x \<in> set v'" "(x, y) \<in> (adj_rel adj)\<^sup>*" by auto
      show "y \<in> (adj_rel adj)\<^sup>* `` set visited"
      proof (cases "x \<in> set visited")
        case True
        with x show ?thesis by auto
      next
        case False
        with x new have "x \<in> set nbrs" by auto
        with succ have "(current, x) \<in> adj_rel adj" by auto
        with x have "(current, y) \<in> (adj_rel adj)\<^sup>*" by (meson converse_rtrancl_into_rtrancl)
        with cv show ?thesis by auto
      qed
    qed
  qed
  with ih show ?case by simp
qed

lemma bfs_loop_total:
  assumes "\<forall>x \<in> set q. x < length adj" and "\<forall>(x, y) \<in> adj_rel adj. y < length adj"
  shows "\<exists>r. bfs_loop adj v q = Inr r"
  using assms
proof (induction adj v q rule: bfs_loop.induct)
  case (1 adj visited)
  then show ?case by (simp add: bfs_loop.simps)
next
  case (2 adj visited current queue)
  then have cur: "current < length adj" by simp
  then have nb: "js_index adj current = Some (adj ! current)" by (simp add: js_index_def)
  obtain v' q' where vn: "visit_neighbors (adj ! current) (visited, queue) = (v', q')"
    by (cases "visit_neighbors (adj ! current) (visited, queue)")
  from visit_neighbors_spec[OF vn] obtain new where
    new: "q' = queue @ new" "set new = set (adj ! current) - set visited"
    by blast
  have "\<forall>x \<in> set (adj ! current). x < length adj"
    using "2.prems"(2) cur by (auto simp: adj_rel_def)
  with new "2.prems"(1) have "\<forall>x \<in> set q'. x < length adj" by auto
  from "2.IH"[OF nb vn[symmetric] this "2.prems"(2)] nb vn
  show ?case by (simp add: bfs_loop.simps)
qed

lemma set_fold_set_add: "set (fold set_add xs s) = set s \<union> set xs"
  by (induction xs arbitrary: s) (auto simp: set_add_def)

lemma distinct_fold_set_add: "distinct s \<Longrightarrow> distinct (fold set_add xs s)"
  by (induction xs arbitrary: s) (auto simp: set_add_def)

lemma prop_read_Index: "prop_read obj k = Some (Index i) \<longleftrightarrow> obj k = Some i"
  by (simp add: prop_read_def split: option.splits)

lemma prop_read_own: "obj k = Some i \<Longrightarrow> prop_read obj k = Some (Index i)"
  by (simp add: prop_read_def)

lemma seed_loop_step:
  assumes "seed_loop ti adj (t # ts) reach = Inr r"
  obtains s where "ti t = Some s"
    and "s \<in> set reach \<Longrightarrow> seed_loop ti adj ts reach = Inr r"
    and "s \<notin> set reach \<Longrightarrow>
           \<exists>visited. bfs_loop adj [s] [s] = Inr visited
             \<and> seed_loop ti adj ts (fold set_add visited reach) = Inr r"
proof -
  from assms obtain p where p: "prop_read ti t = Some p"
    by (cases "prop_read ti t") simp_all
  with assms obtain s where s: "p = Index s" by (cases p) simp_all
  have own: "ti t = Some s" using p s by (simp add: prop_read_Index)
  have 1: "seed_loop ti adj ts reach = Inr r" if "s \<in> set reach"
    using assms p s that by simp
  have 2: "\<exists>visited. bfs_loop adj [s] [s] = Inr visited
             \<and> seed_loop ti adj ts (fold set_add visited reach) = Inr r" if "s \<notin> set reach"
    using assms p s that by (cases "bfs_loop adj [s] [s]") simp_all
  from own 1 2 show ?thesis by (rule that)
qed

lemma seed_loop_spec:
  assumes "seed_loop ti adj ts reach = Inr r"
    and "adj_rel adj `` set reach \<subseteq> set reach"
    and "distinct reach"
    and "\<forall>x \<in> set reach. x < length adj"
  shows "set r = set reach \<union> (adj_rel adj)\<^sup>* `` {i. \<exists>t \<in> set ts. ti t = Some i}
       \<and> distinct r \<and> (\<forall>x \<in> set r. x < length adj)
       \<and> (\<forall>t \<in> set ts. \<exists>i. ti t = Some i)"
  using assms
proof (induction ts arbitrary: reach)
  case Nil
  then show ?case by simp
next
  case (Cons t ts)
  from seed_loop_step[OF Cons.prems(1)] obtain s where s: "ti t = Some s"
    and hit: "s \<in> set reach \<Longrightarrow> seed_loop ti adj ts reach = Inr r"
    and miss: "s \<notin> set reach \<Longrightarrow>
           \<exists>visited. bfs_loop adj [s] [s] = Inr visited
             \<and> seed_loop ti adj ts (fold set_add visited reach) = Inr r"
    by blast
  have split: "{i. \<exists>u \<in> set (t # ts). ti u = Some i} = insert s {i. \<exists>u \<in> set ts. ti u = Some i}"
    using s by auto
  have closed: "(adj_rel adj)\<^sup>* `` set reach = set reach"
    using Cons.prems(2) by (rule Image_closed_trancl)
  show ?case
  proof (cases "s \<in> set reach")
    case True
    from hit[OF True] have run: "seed_loop ti adj ts reach = Inr r" .
    from Cons.IH[OF run Cons.prems(2-4)]
    have ih: "set r = set reach \<union> (adj_rel adj)\<^sup>* `` {i. \<exists>t \<in> set ts. ti t = Some i}"
      "distinct r" "\<forall>x \<in> set r. x < length adj" "\<forall>t \<in> set ts. \<exists>i. ti t = Some i"
      by blast+
    have "(adj_rel adj)\<^sup>* `` {s} \<subseteq> set reach" using closed True by blast
    then have "set r = set reach \<union> (adj_rel adj)\<^sup>* `` insert s {i. \<exists>t \<in> set ts. ti t = Some i}"
      using ih(1) by auto
    with ih(2-4) s show ?thesis unfolding split by simp
  next
    case False
    from miss[OF False] obtain visited where
      bfs: "bfs_loop adj [s] [s] = Inr visited"
      and run: "seed_loop ti adj ts (fold set_add visited reach) = Inr r"
      by blast
    from bfs_loop_spec[OF bfs]
    have vis: "set visited = (adj_rel adj)\<^sup>* `` {s}" "\<forall>x \<in> set visited. x < length adj"
      by auto
    let ?reach' = "fold set_add visited reach"
    have sr: "set ?reach' = set reach \<union> (adj_rel adj)\<^sup>* `` {s}"
      by (simp add: set_fold_set_add vis)
    have c1: "adj_rel adj `` set ?reach' \<subseteq> set ?reach'"
    proof -
      have "adj_rel adj `` ((adj_rel adj)\<^sup>* `` {s}) \<subseteq> (adj_rel adj)\<^sup>* `` {s}"
        by (auto intro: rtrancl_into_rtrancl)
      with Cons.prems(2) show ?thesis unfolding sr by blast
    qed
    have c2: "distinct ?reach'" using Cons.prems(3) by (rule distinct_fold_set_add)
    have c3: "\<forall>x \<in> set ?reach'. x < length adj"
      using Cons.prems(4) vis by (auto simp: set_fold_set_add)
    from Cons.IH[OF run c1 c2 c3]
    have ih: "set r = set ?reach' \<union> (adj_rel adj)\<^sup>* `` {i. \<exists>t \<in> set ts. ti t = Some i}"
      "distinct r" "\<forall>x \<in> set r. x < length adj" "\<forall>t \<in> set ts. \<exists>i. ti t = Some i"
      by blast+
    have "set r = set reach \<union> (adj_rel adj)\<^sup>* `` insert s {i. \<exists>t \<in> set ts. ti t = Some i}"
      using ih(1) sr by auto
    with ih(2-4) s show ?thesis unfolding split by simp
  qed
qed

lemma seed_loop_total:
  assumes "\<forall>t \<in> set ts. \<exists>i. ti t = Some i \<and> i < length adj"
    and "\<forall>(x, y) \<in> adj_rel adj. y < length adj"
  shows "\<exists>r. seed_loop ti adj ts reach = Inr r"
  using assms
proof (induction ts arbitrary: reach)
  case Nil
  then show ?case by simp
next
  case (Cons t ts)
  then obtain s where s: "ti t = Some s" "s < length adj" by auto
  from bfs_loop_total[of "[s]" adj "[s]"] s Cons.prems(2)
  obtain visited where bfs: "bfs_loop adj [s] [s] = Inr visited" by auto
  have p: "prop_read ti t = Some (Index s)" using s(1) by (rule prop_read_own)
  from Cons.IH[of reach] Cons.IH[of "fold set_add visited reach"] Cons.prems p bfs
  show ?case by auto
qed

subsection \<open>Enumeration of the components\<close>

lemma assigned_update:
  "k < length co \<Longrightarrow> assigned (co[k := int cid]) = insert k (assigned co)"
  by (auto simp: assigned_def nth_list_update split: if_splits)

lemma mark_neighbors_spec:
  "mark_neighbors cid xs (co, q) = (co', q') \<Longrightarrow>
     \<exists>new. q' = q @ new \<and> distinct new
       \<and> set new = {x \<in> set xs. x < length co \<and> co ! x = - 1}
       \<and> length co' = length co \<and> assigned co' = assigned co \<union> set new"
proof (induction xs arbitrary: co q)
  case Nil
  then show ?case by simp
next
  case (Cons x xs)
  show ?case
  proof (cases "js_index co x = Some (- 1)")
    case False
    with Cons.prems have "mark_neighbors cid xs (co, q) = (co', q')" by simp
    from Cons.IH[OF this] obtain new where
      n: "q' = q @ new" "distinct new" "set new = {x \<in> set xs. x < length co \<and> co ! x = - 1}"
        "length co' = length co" "assigned co' = assigned co \<union> set new"
      by blast
    from False have "\<not> (x < length co \<and> co ! x = - 1)" by (auto simp: js_index_def)
    then have "{y \<in> set (x # xs). y < length co \<and> co ! y = - 1}
        = {y \<in> set xs. y < length co \<and> co ! y = - 1}" by auto
    with n show ?thesis by auto
  next
    case True
    then have xl: "x < length co" and xv: "co ! x = - 1"
      by (auto simp: js_index_def split: if_splits)
    let ?co1 = "co[x := int cid]"
    from True Cons.prems have "mark_neighbors cid xs (?co1, q @ [x]) = (co', q')" by simp
    from Cons.IH[OF this] obtain new where
      n: "q' = (q @ [x]) @ new" "distinct new"
        "set new = {y \<in> set xs. y < length ?co1 \<and> ?co1 ! y = - 1}"
        "length co' = length ?co1" "assigned co' = assigned ?co1 \<union> set new"
      by blast
    have sn: "set new = {y \<in> set xs. y < length co \<and> co ! y = - 1} - {x}"
      unfolding n(3) using xl by (auto simp: nth_list_update)
    show ?thesis
    proof (intro exI[of _ "x # new"] conjI)
      show "q' = q @ x # new" using n by simp
      show "distinct (x # new)" using n sn by auto
      show "set (x # new) = {y \<in> set (x # xs). y < length co \<and> co ! y = - 1}"
        using sn xl xv by auto
      show "length co' = length co" using n by simp
      show "assigned co' = assigned co \<union> set (x # new)"
        using n assigned_update[OF xl, of cid] by auto
    qed
  qed
qed

lemma comp_loop_spec:
  assumes "comp_loop adj cid co ms q = Inr (co', ms')"
    and "length co = length adj"
    and "\<forall>(x, y) \<in> adj_rel adj. y < length adj"
    and "distinct (ms @ q)"
    and "set (ms @ q) \<subseteq> assigned co"
    and "\<forall>x \<in> set ms. adj_rel adj `` {x} \<subseteq> assigned co"
  shows "\<exists>new. ms' = ms @ q @ new \<and> distinct ms' \<and> assigned co' = assigned co \<union> set new
           \<and> set new \<inter> assigned co = {} \<and> set new \<subseteq> (adj_rel adj)\<^sup>* `` set q
           \<and> (\<forall>x \<in> set ms'. adj_rel adj `` {x} \<subseteq> assigned co') \<and> length co' = length co"
  using assms
proof (induction adj cid co ms q rule: comp_loop.induct)
  case (1 adj componentId componentOf members)
  then have "co' = componentOf" "ms' = members" by (simp_all add: comp_loop.simps)
  with 1 show ?case by (intro exI[of _ "[]"]) auto
next
  case (2 adj componentId componentOf members current queue)
  let ?R = "adj_rel adj"
  from "2.prems"(1) obtain nbrs where nb: "js_index adj current = Some nbrs"
    by (auto simp: comp_loop.simps split: option.splits)
  then have cur: "current < length adj" and nbrs: "nbrs = adj ! current"
    by (auto simp: js_index_def split: if_splits)
  obtain co1 q1 where mn: "mark_neighbors componentId nbrs (componentOf, queue) = (co1, q1)"
    by (cases "mark_neighbors componentId nbrs (componentOf, queue)")
  with "2.prems"(1) nb have run: "comp_loop adj componentId co1 (members @ [current]) q1 = Inr (co', ms')"
    by (simp add: comp_loop.simps)
  from mark_neighbors_spec[OF mn] obtain new1 where
    n1: "q1 = queue @ new1" "distinct new1"
      "set new1 = {x \<in> set nbrs. x < length componentOf \<and> componentOf ! x = - 1}"
      "length co1 = length componentOf" "assigned co1 = assigned componentOf \<union> set new1"
    by blast
  have succ: "?R `` {current} = set nbrs" using cur nbrs by (auto simp: adj_rel_def)
  have rng: "\<forall>x \<in> set nbrs. x < length componentOf"
    using "2.prems"(2,3) succ by auto
  have new1_eq: "set new1 = set nbrs - assigned componentOf"
    unfolding n1(3) using rng by (auto simp: assigned_def)
  have p1: "length co1 = length adj" using n1 "2.prems"(2) by simp
  have p3: "distinct ((members @ [current]) @ q1)"
    using "2.prems"(4,5) n1(1,2) new1_eq by auto
  have p4: "set ((members @ [current]) @ q1) \<subseteq> assigned co1"
    using "2.prems"(5) n1 by auto
  have p5: "\<forall>x \<in> set (members @ [current]). ?R `` {x} \<subseteq> assigned co1"
  proof
    fix x assume "x \<in> set (members @ [current])"
    then consider "x \<in> set members" | "x = current" by auto
    then show "?R `` {x} \<subseteq> assigned co1"
    proof cases
      case 1
      with "2.prems"(6) n1(5) show ?thesis by blast
    next
      case 2
      then show ?thesis using succ new1_eq n1(5) by auto
    qed
  qed
  from "2.IH"[OF nb mn[symmetric] run p1 "2.prems"(3) p3 p4 p5]
  obtain new2 where
    n2: "ms' = (members @ [current]) @ q1 @ new2" "distinct ms'"
      "assigned co' = assigned co1 \<union> set new2" "set new2 \<inter> assigned co1 = {}"
      "set new2 \<subseteq> ?R\<^sup>* `` set q1"
      "\<forall>x \<in> set ms'. ?R `` {x} \<subseteq> assigned co'" "length co' = length co1"
    by blast
  have reach1: "set new1 \<subseteq> ?R\<^sup>* `` set (current # queue)"
    using new1_eq succ by auto
  have reach2: "set new2 \<subseteq> ?R\<^sup>* `` set (current # queue)"
  proof
    fix y assume "y \<in> set new2"
    with n2(5) obtain x where x: "x \<in> set q1" "(x, y) \<in> ?R\<^sup>*" by auto
    show "y \<in> ?R\<^sup>* `` set (current # queue)"
    proof (cases "x \<in> set queue")
      case True
      with x show ?thesis by auto
    next
      case False
      with x n1(1) have "x \<in> set new1" by auto
      with new1_eq succ have "(current, x) \<in> ?R" by auto
      with x have "(current, y) \<in> ?R\<^sup>*" by (meson converse_rtrancl_into_rtrancl)
      then show ?thesis by auto
    qed
  qed
  show ?case
  proof (intro exI[of _ "new1 @ new2"] conjI)
    show "ms' = members @ (current # queue) @ new1 @ new2" using n2(1) n1(1) by simp
    show "distinct ms'" by (rule n2(2))
    show "assigned co' = assigned componentOf \<union> set (new1 @ new2)" using n2(3) n1(5) by auto
    show "set (new1 @ new2) \<inter> assigned componentOf = {}" using n2(4) n1(5) new1_eq by auto
    show "set (new1 @ new2) \<subseteq> ?R\<^sup>* `` set (current # queue)" using reach1 reach2 by auto
    show "\<forall>x \<in> set ms'. ?R `` {x} \<subseteq> assigned co'" by (rule n2(6))
    show "length co' = length componentOf" using n2(7) n1(4) by simp
  qed
qed

lemma comp_loop_total:
  assumes "\<forall>x \<in> set q. x < length adj" and "\<forall>(x, y) \<in> adj_rel adj. y < length adj"
  shows "\<exists>r. comp_loop adj cid co ms q = Inr r"
  using assms
proof (induction adj cid co ms q rule: comp_loop.induct)
  case (1 adj componentId componentOf members)
  then show ?case by (simp add: comp_loop.simps)
next
  case (2 adj componentId componentOf members current queue)
  then have cur: "current < length adj" by simp
  then have nb: "js_index adj current = Some (adj ! current)" by (simp add: js_index_def)
  obtain co1 q1 where mn: "mark_neighbors componentId (adj ! current) (componentOf, queue) = (co1, q1)"
    by (cases "mark_neighbors componentId (adj ! current) (componentOf, queue)")
  from mark_neighbors_spec[OF mn] obtain new where
    new: "q1 = queue @ new" "set new \<subseteq> set (adj ! current)"
    by blast
  have "\<forall>x \<in> set (adj ! current). x < length adj"
    using "2.prems"(2) cur by (auto simp: adj_rel_def)
  with new "2.prems"(1) have "\<forall>x \<in> set q1. x < length adj" by auto
  from "2.IH"[OF nb mn[symmetric] this "2.prems"(2)] nb mn
  show ?case by (simp add: comp_loop.simps)
qed

lemma sym_closed_disjoint:
  assumes "sym R" and "R `` A \<subseteq> A" and "x \<notin> A"
  shows "R `` {x} \<inter> A = {}"
proof (rule ccontr)
  assume "R `` {x} \<inter> A \<noteq> {}"
  then obtain y where "(x, y) \<in> R" "y \<in> A" by auto
  with assms(1) have "(y, x) \<in> R" by (auto dest: symD)
  with \<open>y \<in> A\<close> assms(2) have "x \<in> A" by auto
  with assms(3) show False by simp
qed

lemma rtrancl_other_has_pred:
  assumes "(x, y) \<in> R\<^sup>*" and "y \<noteq> x"
  shows "\<exists>z. (z, y) \<in> R"
  using assms by (auto elim: rtranclE)

lemma adj_rel_nonempty: "(k, z) \<in> adj_rel adj \<Longrightarrow> adj ! k \<noteq> []"
  by (auto simp: adj_rel_def)

lemma component_scan_spec:
  assumes "component_scan adj tks vmh is (co, cid, comps) = Inr (co', cid', comps')"
    and "sym (adj_rel adj)" and "\<forall>(x, y) \<in> adj_rel adj. y < length adj"
    and "sorted_wrt (<) is" and "\<forall>i \<in> set is. i < length adj"
    and "scan_inv adj tks vmh co cid comps"
    and "\<forall>c \<in> set comps. \<forall>i \<in> set is. hd (indices c) < i"
    and "\<forall>k < length adj. k \<notin> set is \<longrightarrow> adj ! k \<noteq> [] \<longrightarrow> k \<in> assigned co"
  shows "scan_inv adj tks vmh co' cid' comps'
       \<and> (\<forall>k < length adj. adj ! k \<noteq> [] \<longrightarrow> k \<in> assigned co')"
  using assms
proof (induction "is" arbitrary: co cid comps)
  case Nil
  then show ?case by simp
next
  case (Cons i "is")
  let ?R = "adj_rel adj"
  note symR = Cons.prems(2) and rng = Cons.prems(3)
  have srt: "sorted_wrt (<) is" and i_lt: "\<forall>j \<in> set is. i < j"
    using Cons.prems(4) by auto
  have i_len: "i < length adj" and is_len: "\<forall>j \<in> set is. j < length adj"
    using Cons.prems(5) by auto
  note inv = Cons.prems(6)
  have len: "length co = length adj"
    and asg: "assigned co = \<Union> (set ` indices ` set comps)"
    and closed: "?R `` assigned co \<subseteq> assigned co"
    and oks: "\<forall>c \<in> set comps. component_ok adj tks vmh c"
    and ids: "map comp_id comps = [0..<cid]"
    and roots: "sorted_wrt (<) (map (\<lambda>c. hd (indices c)) comps)"
    using inv unfolding scan_inv_def by blast+
  have roots_lt: "\<forall>c \<in> set comps. hd (indices c) < i"
    and roots_is: "\<forall>c \<in> set comps. \<forall>j \<in> set is. hd (indices c) < j"
    using Cons.prems(7) by auto
  note cover = Cons.prems(8)
  consider (skip1) "co ! i \<noteq> - 1"
    | (skip2) "co ! i = - 1" "adj ! i = []"
    | (new) "co ! i = - 1" "adj ! i \<noteq> []"
    by blast
  then show ?case
  proof cases
    case skip1
    with Cons.prems(1) have run: "component_scan adj tks vmh is (co, cid, comps) = Inr (co', cid', comps')"
      by simp
    have "i \<in> assigned co" using skip1 i_len len by (simp add: assigned_def)
    with cover have "\<forall>k < length adj. k \<notin> set is \<longrightarrow> adj ! k \<noteq> [] \<longrightarrow> k \<in> assigned co"
      by auto
    from Cons.IH[OF run symR rng srt is_len inv roots_is this] show ?thesis .
  next
    case skip2
    with Cons.prems(1) have run: "component_scan adj tks vmh is (co, cid, comps) = Inr (co', cid', comps')"
      by simp
    from skip2 cover have "\<forall>k < length adj. k \<notin> set is \<longrightarrow> adj ! k \<noteq> [] \<longrightarrow> k \<in> assigned co"
      by auto
    from Cons.IH[OF run symR rng srt is_len inv roots_is this] show ?thesis .
  next
    case new
    let ?co1 = "co[i := int cid]"
    from new Cons.prems(1) obtain co2 ms where
      loop: "comp_loop adj cid ?co1 [] [i] = Inr (co2, ms)"
      and run: "component_scan adj tks vmh is
                  (co2, cid + 1, comps @ [make_component tks vmh cid ms]) = Inr (co', cid', comps')"
      by (auto split: sum.splits)
    have i_co: "i < length co" using i_len len by simp
    have a1: "assigned ?co1 = insert i (assigned co)" using i_co by (rule assigned_update)
    have i_notin: "i \<notin> assigned co" using new(1) by (simp add: assigned_def)
    have "\<exists>new. ms = [] @ [i] @ new \<and> distinct ms \<and> assigned co2 = assigned ?co1 \<union> set new
           \<and> set new \<inter> assigned ?co1 = {} \<and> set new \<subseteq> ?R\<^sup>* `` set [i]
           \<and> (\<forall>x \<in> set ms. ?R `` {x} \<subseteq> assigned co2) \<and> length co2 = length ?co1"
      by (rule comp_loop_spec[OF loop]) (use len rng a1 in auto)
    then obtain nw where
      nw: "ms = i # nw" "distinct ms" "assigned co2 = assigned ?co1 \<union> set nw"
        "set nw \<inter> assigned ?co1 = {}" "set nw \<subseteq> ?R\<^sup>* `` {i}"
        "\<forall>x \<in> set ms. ?R `` {x} \<subseteq> assigned co2" "length co2 = length ?co1"
      by auto
    have len2: "length co2 = length adj" using nw(7) len by simp
    have ms_disj: "set ms \<inter> assigned co = {}" using nw(1,4) a1 i_notin by auto
    have asg2: "assigned co2 = assigned co \<union> set ms" using nw(1,3) a1 by auto
    have ms_succ: "\<forall>x \<in> set ms. ?R `` {x} \<subseteq> set ms"
    proof
      fix x assume x: "x \<in> set ms"
      then have "x \<notin> assigned co" using ms_disj by auto
      from sym_closed_disjoint[OF symR closed this] have "?R `` {x} \<inter> assigned co = {}" .
      moreover have "?R `` {x} \<subseteq> assigned co \<union> set ms" using nw(6) x asg2 by auto
      ultimately show "?R `` {x} \<subseteq> set ms" by blast
    qed
    then have "?R `` set ms \<subseteq> set ms" by blast
    then have "?R\<^sup>* `` set ms = set ms" by (rule Image_closed_trancl)
    moreover have "i \<in> set ms" using nw(1) by simp
    ultimately have "?R\<^sup>* `` {i} \<subseteq> set ms" by blast
    moreover have "set ms \<subseteq> ?R\<^sup>* `` {i}" using nw(1,5) by auto
    ultimately have ms_set: "set ms = ?R\<^sup>* `` {i}" by blast
    have ms_ge: "\<forall>k \<in> set ms. i \<le> k"
    proof
      fix k assume k: "k \<in> set ms"
      then have "k \<in> assigned co2" using asg2 by simp
      then have k_len: "k < length adj" using len2 by (simp add: assigned_def)
      have k_notin: "k \<notin> assigned co" using k ms_disj by auto
      have k_deg: "adj ! k \<noteq> []"
      proof (cases "k = i")
        case True
        with new(2) show ?thesis by simp
      next
        case False
        from k ms_set have "(i, k) \<in> ?R\<^sup>*" by auto
        from rtrancl_other_has_pred[OF this False] obtain z where "(z, k) \<in> ?R" by blast
        with symR have "(k, z) \<in> ?R" by (auto dest: symD)
        then show ?thesis by (rule adj_rel_nonempty)
      qed
      from cover k_len k_notin k_deg have "k \<in> set (i # is)" by blast
      with i_lt show "i \<le> k" by auto
    qed
    let ?c = "make_component tks vmh cid ms"
    have c_fields: "indices ?c = ms" "comp_id ?c = cid" by (simp_all add: make_component_def)
    have c_ok: "component_ok adj tks vmh ?c"
      unfolding component_ok_def c_fields
      using nw(1,2) ms_set i_len new(2) ms_ge by auto
    have inv2: "scan_inv adj tks vmh co2 (cid + 1) (comps @ [?c])"
      unfolding scan_inv_def
    proof (intro conjI)
      show "length co2 = length adj" by (rule len2)
      show "assigned co2 = \<Union> (set ` indices ` set (comps @ [?c]))"
        using asg2 asg c_fields by auto
      show "?R `` assigned co2 \<subseteq> assigned co2"
        using closed ms_succ asg2 by blast
      show "\<forall>c \<in> set (comps @ [?c]). component_ok adj tks vmh c"
        using oks c_ok by auto
      show "map comp_id (comps @ [?c]) = [0..<cid + 1]"
        using ids c_fields by simp
      show "sorted_wrt (<) (map (\<lambda>c. hd (indices c)) (comps @ [?c]))"
        using roots roots_lt c_fields nw(1) by (auto simp: sorted_wrt_append)
    qed
    have roots2: "\<forall>c \<in> set (comps @ [?c]). \<forall>j \<in> set is. hd (indices c) < j"
      using roots_is i_lt c_fields nw(1) by auto
    have cover2: "\<forall>k < length adj. k \<notin> set is \<longrightarrow> adj ! k \<noteq> [] \<longrightarrow> k \<in> assigned co2"
    proof (intro allI impI)
      fix k assume k: "k < length adj" "k \<notin> set is" "adj ! k \<noteq> []"
      show "k \<in> assigned co2"
      proof (cases "k = i")
        case True
        then show ?thesis using asg2 nw(1) by simp
      next
        case False
        with k cover have "k \<in> assigned co" by auto
        then show ?thesis using asg2 by simp
      qed
    qed
    from Cons.IH[OF run symR rng srt is_len inv2 roots2 cover2] show ?thesis .
  qed
qed

lemma component_scan_total:
  assumes "\<forall>i \<in> set is. i < length adj" and "\<forall>(x, y) \<in> adj_rel adj. y < length adj"
  shows "\<exists>r. component_scan adj tks vmh is st = Inr r"
  using assms
proof (induction "is" arbitrary: st)
  case Nil
  show ?case by (rule exI[of _ st]) simp
next
  case (Cons i "is")
  obtain co cid comps where st: "st = (co, cid, comps)" by (metis prod_cases3)
  from comp_loop_total[of "[i]" adj cid "co[i := int cid]" "[]"] Cons.prems
  obtain co2 ms where loop: "comp_loop adj cid (co[i := int cid]) [] [i] = Inr (co2, ms)"
    by auto
  from Cons.IH[of "(co, cid, comps)"]
       Cons.IH[of "(co2, cid + 1, comps @ [make_component tks vmh cid ms])"] Cons.prems loop
  show ?case unfolding st by auto
qed

subsection \<open>The comparator sort\<close>

lemma set_insert_cmp [simp]: "set (insert_cmp cmp x ys) = insert x (set ys)"
  by (induction ys) auto

lemma set_array_sort [simp]: "set (array_sort cmp xs) = set xs"
  by (induction xs) (auto simp: array_sort_def)

lemma length_filter_insert_cmp:
  "length (filter P (insert_cmp cmp x ys)) = length (filter P (x # ys))"
  by (induction ys) auto

lemma length_filter_array_sort:
  "length (filter P (array_sort cmp xs)) = length (filter P xs)"
proof (induction xs)
  case Nil
  then show ?case by (simp add: array_sort_def)
next
  case (Cons x xs)
  have "array_sort cmp (x # xs) = insert_cmp cmp x (array_sort cmp xs)"
    by (simp add: array_sort_def)
  with Cons show ?case by (simp add: length_filter_insert_cmp)
qed

lemma length_array_sort [simp]: "length (array_sort cmp xs) = length xs"
  using length_filter_array_sort[of "\<lambda>_. True" cmp xs] by simp

lemma insert_cmp_lex:
  fixes cmp :: "'a \<Rightarrow> 'a \<Rightarrow> int" and f :: "'a \<Rightarrow> nat"
  assumes total: "\<And>a b. cmp a b \<le> 0 \<or> cmp b a \<le> 0"
    and trans: "\<And>a b c. cmp a b \<le> 0 \<Longrightarrow> cmp b c \<le> 0 \<Longrightarrow> cmp a c \<le> 0"
    and srt: "sorted_wrt (\<lambda>a b. cmp a b \<le> 0 \<and> (cmp b a \<le> 0 \<longrightarrow> f a < f b)) ys"
    and later: "\<forall>y \<in> set ys. f x < f y"
  shows "sorted_wrt (\<lambda>a b. cmp a b \<le> 0 \<and> (cmp b a \<le> 0 \<longrightarrow> f a < f b)) (insert_cmp cmp x ys)"
  using srt later
proof (induction ys)
  case Nil
  then show ?case by simp
next
  case (Cons y ys)
  show ?case
  proof (cases "cmp x y \<le> 0")
    case True
    have "\<forall>z \<in> set (y # ys). cmp x z \<le> 0"
    proof
      fix z assume "z \<in> set (y # ys)"
      then consider "z = y" | "z \<in> set ys" by auto
      then show "cmp x z \<le> 0"
      proof cases
        case 1
        with True show ?thesis by simp
      next
        case 2
        with Cons.prems(1) have "cmp y z \<le> 0" by auto
        with True show ?thesis by (rule trans)
      qed
    qed
    with True Cons.prems show ?thesis by auto
  next
    case False
    with total[of x y] have yx: "cmp y x \<le> 0" by auto
    from Cons.IH Cons.prems
    have ih: "sorted_wrt (\<lambda>a b. cmp a b \<le> 0 \<and> (cmp b a \<le> 0 \<longrightarrow> f a < f b)) (insert_cmp cmp x ys)"
      by auto
    with False yx Cons.prems(1) show ?thesis by auto
  qed
qed

lemma array_sort_lex:
  fixes cmp :: "'a \<Rightarrow> 'a \<Rightarrow> int" and f :: "'a \<Rightarrow> nat"
  assumes total: "\<And>a b. cmp a b \<le> 0 \<or> cmp b a \<le> 0"
    and trans: "\<And>a b c. cmp a b \<le> 0 \<Longrightarrow> cmp b c \<le> 0 \<Longrightarrow> cmp a c \<le> 0"
    and inc: "sorted_wrt (\<lambda>a b. f a < f b) xs"
  shows "sorted_wrt (\<lambda>a b. cmp a b \<le> 0 \<and> (cmp b a \<le> 0 \<longrightarrow> f a < f b)) (array_sort cmp xs)"
  using inc
proof (induction xs)
  case Nil
  then show ?case by (simp add: array_sort_def)
next
  case (Cons x xs)
  have unfold: "array_sort cmp (x # xs) = insert_cmp cmp x (array_sort cmp xs)"
    by (simp add: array_sort_def)
  from Cons.prems have inc': "sorted_wrt (\<lambda>a b. f a < f b) xs"
    and later: "\<forall>y \<in> set (array_sort cmp xs). f x < f y"
    by auto
  show ?case
    unfolding unfold
  proof (rule insert_cmp_lex)
    show "\<And>a b. cmp a b \<le> 0 \<or> cmp b a \<le> 0" by (rule total)
    show "\<And>a b c. cmp a b \<le> 0 \<Longrightarrow> cmp b c \<le> 0 \<Longrightarrow> cmp a c \<le> 0" by (rule trans)
    show "sorted_wrt (\<lambda>a b. cmp a b \<le> 0 \<and> (cmp b a \<le> 0 \<longrightarrow> f a < f b)) (array_sort cmp xs)"
      by (rule Cons.IH[OF inc'])
    show "\<forall>y \<in> set (array_sort cmp xs). f x < f y" by (rule later)
  qed
qed

lemma component_cmp_le_iff:
  "component_cmp a b \<le> 0 \<longleftrightarrow>
     (containsMustHave a \<and> \<not> containsMustHave b)
     \<or> (containsMustHave a = containsMustHave b \<and> comp_size b \<le> comp_size a)"
  by (auto simp: component_cmp_def)

lemma component_cmp_total: "component_cmp a b \<le> 0 \<or> component_cmp b a \<le> 0"
  unfolding component_cmp_le_iff by auto

lemma component_cmp_trans:
  "component_cmp a b \<le> 0 \<Longrightarrow> component_cmp b c \<le> 0 \<Longrightarrow> component_cmp a c \<le> 0"
  unfolding component_cmp_le_iff by auto

subsection \<open>The structure of a regular result\<close>

lemma qualifying_edge_sym: "qualifying_edge m th a b = qualifying_edge m th b a"
  by (auto simp: qualifying_edge_def min.commute max.commute)

lemma buildAdj_graph:
  assumes "buildAdj m th n = Inr adj"
  shows "sym (adj_rel adj)" and "\<forall>(x, y) \<in> adj_rel adj. y < length adj"
    and "\<forall>x. (x, x) \<notin> adj_rel adj"
proof -
  note r = buildAdj_rel[OF assms]
  show "sym (adj_rel adj)"
    unfolding r(2) sym_def using qualifying_edge_sym[of m th] by blast
  show "\<forall>(x, y) \<in> adj_rel adj. y < length adj"
    unfolding r by blast
  show "\<forall>x. (x, x) \<notin> adj_rel adj"
    unfolding r(2) by (simp add: qualifying_edge_def)
qed

lemma assigned_replicate [simp]: "assigned (replicate n (- 1)) = {}"
  by (auto simp: assigned_def)

lemma scan_inv_initial: "length adj = n \<Longrightarrow> scan_inv adj tks vmh (replicate n (- 1)) 0 []"
  by (simp add: scan_inv_def)

lemma detectCluster_with_error:
  assumes "filter (\<lambda>t. prop_read (tickerIndex cd) t \<noteq> None) mh = []"
  shows "detectCluster_with sc sd cd mh th =
    Inr \<lparr> clusterTickers = [], components = [],
          error = Some ''None of the must-have tickers found in data'',
          validMustHave = None, threshold = None, totalNodes = None,
          nodesAboveThreshold = None \<rparr>"
  using assms by (simp add: detectCluster_with_def)

lemma detectCluster_with_regular:
  assumes "detectCluster_with sc sd cd mh th = Inr r"
    and "filter (\<lambda>t. prop_read (tickerIndex cd) t \<noteq> None) mh \<noteq> []"
  obtains adj reachable co cid comps where
    "buildAdj (matrix cd) th (length (tickers cd)) = Inr adj"
    "seed_loop (tickerIndex cd) adj (filter (\<lambda>t. prop_read (tickerIndex cd) t \<noteq> None) mh) [] = Inr reachable"
    "component_scan adj (tickers cd) (filter (\<lambda>t. prop_read (tickerIndex cd) t \<noteq> None) mh)
       [0..<length (tickers cd)] (replicate (length (tickers cd)) (- 1), 0, []) = Inr (co, cid, comps)"
    "r = \<lparr> clusterTickers = sd (map (\<lambda>idx. tickers cd ! idx) reachable),
           components = sc component_cmp comps,
           error = None,
           validMustHave = Some (filter (\<lambda>t. prop_read (tickerIndex cd) t \<noteq> None) mh),
           threshold = Some th,
           totalNodes = Some (length (tickers cd)),
           nodesAboveThreshold = Some (length reachable) \<rparr>"
proof -
  let ?n = "length (tickers cd)"
  let ?vmh = "filter (\<lambda>t. prop_read (tickerIndex cd) t \<noteq> None) mh"
  have ne: "length ?vmh \<noteq> 0" using assms(2) by simp
  obtain adj where a: "buildAdj (matrix cd) th ?n = Inr adj"
    using assms(1) ne unfolding detectCluster_with_def Let_def
    by (cases "buildAdj (matrix cd) th ?n") simp_all
  obtain reachable where b: "seed_loop (tickerIndex cd) adj ?vmh [] = Inr reachable"
    using assms(1) ne a unfolding detectCluster_with_def Let_def
    by (cases "seed_loop (tickerIndex cd) adj ?vmh []") simp_all
  obtain st where c0: "component_scan adj (tickers cd) ?vmh [0..<?n] (replicate ?n (- 1), 0, []) = Inr st"
    using assms(1) ne a b unfolding detectCluster_with_def Let_def
    by (cases "component_scan adj (tickers cd) ?vmh [0..<?n] (replicate ?n (- 1), 0, [])") simp_all
  obtain co cid comps where st: "st = (co, cid, comps)" by (metis prod_cases3)
  have "r = \<lparr> clusterTickers = sd (map (\<lambda>idx. tickers cd ! idx) reachable),
           components = sc component_cmp comps,
           error = None,
           validMustHave = Some ?vmh,
           threshold = Some th,
           totalNodes = Some ?n,
           nodesAboveThreshold = Some (length reachable) \<rparr>"
    using assms(1) ne a b c0 unfolding detectCluster_with_def Let_def st by simp
  with a b c0 st show ?thesis using that by blast
qed

lemma detectCluster_error:
  assumes "filter (\<lambda>t. prop_read (tickerIndex cd) t \<noteq> None) mh = []"
  shows "detectCluster cd mh th =
    Inr \<lparr> clusterTickers = [], components = [],
          error = Some ''None of the must-have tickers found in data'',
          validMustHave = None, threshold = None, totalNodes = None,
          nodesAboveThreshold = None \<rparr>"
  unfolding detectCluster_def using assms by (rule detectCluster_with_error)

lemma detectCluster_regular:
  assumes "detectCluster cd mh th = Inr r"
    and "filter (\<lambda>t. prop_read (tickerIndex cd) t \<noteq> None) mh \<noteq> []"
  obtains adj reachable co cid comps where
    "buildAdj (matrix cd) th (length (tickers cd)) = Inr adj"
    "seed_loop (tickerIndex cd) adj (filter (\<lambda>t. prop_read (tickerIndex cd) t \<noteq> None) mh) [] = Inr reachable"
    "component_scan adj (tickers cd) (filter (\<lambda>t. prop_read (tickerIndex cd) t \<noteq> None) mh)
       [0..<length (tickers cd)] (replicate (length (tickers cd)) (- 1), 0, []) = Inr (co, cid, comps)"
    "r = \<lparr> clusterTickers = sort (map (\<lambda>idx. tickers cd ! idx) reachable),
           components = array_sort component_cmp comps,
           error = None,
           validMustHave = Some (filter (\<lambda>t. prop_read (tickerIndex cd) t \<noteq> None) mh),
           threshold = Some th,
           totalNodes = Some (length (tickers cd)),
           nodesAboveThreshold = Some (length reachable) \<rparr>"
  using detectCluster_with_regular[OF assms(1)[unfolded detectCluster_def] assms(2)] by blast

lemma regular_reachable:
  assumes "buildAdj m th n = Inr adj" and "seed_loop ti adj vmh [] = Inr reachable"
  shows "set reachable = (adj_rel adj)\<^sup>* `` {i. \<exists>t \<in> set vmh. ti t = Some i}"
    and "distinct reachable" and "\<forall>x \<in> set reachable. x < n"
    and "\<forall>t \<in> set vmh. \<exists>i. ti t = Some i"
  using seed_loop_spec[OF assms(2)] buildAdj_rel(1)[OF assms(1)] by auto

lemma regular_components:
  assumes "buildAdj m th n = Inr adj"
    and "component_scan adj tks vmh [0..<n] (replicate n (- 1), 0, []) = Inr (co, cid, comps)"
  shows "scan_inv adj tks vmh co cid comps" and "\<forall>k < n. adj ! k \<noteq> [] \<longrightarrow> k \<in> assigned co"
proof -
  have len: "length adj = n" by (rule buildAdj_rel(1)[OF assms(1)])
  have "scan_inv adj tks vmh co cid comps \<and> (\<forall>k < length adj. adj ! k \<noteq> [] \<longrightarrow> k \<in> assigned co)"
  proof (rule component_scan_spec[OF assms(2) buildAdj_graph(1,2)[OF assms(1)]])
    show "sorted_wrt (<) [0..<n]" by simp
    show "\<forall>i \<in> set [0..<n]. i < length adj" using len by simp
    show "scan_inv adj tks vmh (replicate n (- 1)) 0 []" using len by (rule scan_inv_initial)
    show "\<forall>c \<in> set []. \<forall>i \<in> set [0..<n]. hd (indices c) < i" by simp
    show "\<forall>k < length adj. k \<notin> set [0..<n] \<longrightarrow> adj ! k \<noteq> [] \<longrightarrow> k \<in> assigned (replicate n (- 1))"
      using len by simp
  qed
  with len show "scan_inv adj tks vmh co cid comps"
    and "\<forall>k < n. adj ! k \<noteq> [] \<longrightarrow> k \<in> assigned co" by auto
qed

subsection \<open>The identifier index and totality of the adjacency construction\<close>

lemma buildTickerIndex_snoc:
  "buildTickerIndex (ts @ [t]) = prop_write (buildTickerIndex ts) t (length ts)"
  by (simp add: buildTickerIndex_def)

lemma buildTickerIndex_Some:
  "buildTickerIndex ts t = Some i \<Longrightarrow> i < length ts \<and> ts ! i = t"
proof (induction ts arbitrary: i rule: rev_induct)
  case Nil
  then show ?case by (simp add: buildTickerIndex_def)
next
  case (snoc u us)
  then show ?case
    by (auto simp: buildTickerIndex_snoc prop_write_def nth_append less_Suc_eq split: if_splits)
qed

lemma buildTickerIndex_dom:
  "buildTickerIndex ts t \<noteq> None \<longleftrightarrow> t \<in> set ts \<and> t \<noteq> ''__proto__''"
proof (induction ts rule: rev_induct)
  case Nil
  then show ?case by (simp add: buildTickerIndex_def)
next
  case (snoc u us)
  then show ?case
    by (auto simp: buildTickerIndex_snoc prop_write_def split: if_splits)
qed

lemma buildTickerIndex_own:
  assumes "distinct ts" and "buildTickerIndex ts (ts ! i) \<noteq> None" and "i < length ts"
  shows "buildTickerIndex ts (ts ! i) = Some i"
proof -
  from assms(2) obtain j where j: "buildTickerIndex ts (ts ! i) = Some j" by blast
  from buildTickerIndex_Some[OF j] have "j < length ts" "ts ! j = ts ! i" by auto
  with assms(1,3) have "j = i" by (simp add: nth_eq_iff_index_eq)
  with j show ?thesis by simp
qed

lemma proto_inherited: "''__proto__'' \<in> set object_prototype_keys"
  by (simp add: object_prototype_keys_def)

text \<open>
  On the derived index, a key reads as \<open>undefined\<close> iff it is neither an identifier of the
  matrix nor a property name of \<open>Object.prototype\<close>.
\<close>

lemma prop_read_buildTickerIndex_None:
  "prop_read (buildTickerIndex ts) t = None \<longleftrightarrow> t \<notin> set ts \<and> t \<notin> set object_prototype_keys"
proof (cases "buildTickerIndex ts t")
  case None
  then have "t \<notin> set ts \<or> t = ''__proto__''" using buildTickerIndex_dom[of ts t] by blast
  with None show ?thesis using proto_inherited by (auto simp: prop_read_def)
next
  case (Some i)
  then have "t \<in> set ts" using buildTickerIndex_dom[of ts t] by simp
  with Some show ?thesis by (simp add: prop_read_def)
qed

lemma adj_inner_total:
  "i < length m \<Longrightarrow> \<exists>adj'. adj_inner m th i js adj = Inr adj'"
proof (induction js arbitrary: adj)
  case Nil
  then show ?case by simp
next
  case (Cons j js)
  have "\<exists>b. edge_test m th i j = Inr b"
    using Cons.prems by (cases "js_index (m ! i) j") (auto simp: edge_test_def js_index_def)
  then obtain b where "edge_test m th i j = Inr b" by blast
  with Cons show ?case by simp
qed

lemma adj_outer_total:
  "\<forall>i \<in> set is. i < length m \<Longrightarrow> \<exists>adj'. adj_outer m th n is adj = Inr adj'"
proof (induction "is" arbitrary: adj)
  case Nil
  then show ?case by simp
next
  case (Cons i "is")
  then obtain adj1 where "adj_inner m th i [i + 1..<n] adj = Inr adj1"
    using adj_inner_total[of i m th "[i + 1..<n]" adj] by auto
  with Cons show ?case by simp
qed

lemma buildAdj_total: "n \<le> length m \<Longrightarrow> \<exists>adj. buildAdj m th n = Inr adj"
  unfolding buildAdj_def by (rule adj_outer_total) simp

subsection \<open>Symmetry of the adjacency array\<close>

text \<open>
  Claim C10. Whatever the matrix, symmetric or not, the adjacency array that \<open>detectCluster\<close>
  builds is symmetric and free of self-loops: for \<open>i < j < n\<close>, node \<open>j\<close> is listed under \<open>i\<close>
  iff node \<open>i\<close> is listed under \<open>j\<close> iff the entry \<open>matrix[i][j]\<close> above the diagonal passes
  the threshold test; the entry \<open>matrix[j][i]\<close> is never read. No index is listed under
  itself.
\<close>

theorem adjacency_symmetric_loop_free:
  assumes "buildAdj m th n = Inr adj" and "i < j" and "j < n"
  shows "(j \<in> set (adj ! i) \<longleftrightarrow> edge_test m th i j = Inr True)
       \<and> (i \<in> set (adj ! j) \<longleftrightarrow> edge_test m th i j = Inr True)
       \<and> (k < n \<longrightarrow> k \<notin> set (adj ! k))"
proof -
  note r = buildAdj_rel[OF assms(1)]
  have mm: "min i j = i" "max i j = j" "min j i = i" "max j i = j" using assms(2) by auto
  have "(i, j) \<in> adj_rel adj \<longleftrightarrow> edge_test m th i j = Inr True"
    unfolding r(2) using assms(2,3) by (simp add: qualifying_edge_def mm)
  moreover have "(j, i) \<in> adj_rel adj \<longleftrightarrow> edge_test m th i j = Inr True"
    unfolding r(2) using assms(2,3) by (simp add: qualifying_edge_def mm)
  moreover have "(k, k) \<notin> adj_rel adj"
    unfolding r(2) by (simp add: qualifying_edge_def)
  ultimately show ?thesis
    using assms(2,3) r(1) by (simp add: adj_rel_def)
qed

lemma skew3_adj: "buildAdj skew3 (1 / 2) 3 = Inr [[1], [0], []]"
  by code_simp

text \<open>
  The statement at a matrix that is not symmetric: \<open>matrix[0][1] = 0.9\<close> passes the threshold
  0.5 and \<open>matrix[1][0] = 0\<close> does not, yet 0 and 1 list each other.
\<close>

theorem adjacency_symmetric_loop_free_witness:
  "buildAdj skew3 (1 / 2) 3 = Inr [[1], [0], []]
   \<and> (1 \<in> set ([[1], [0], []] ! 0 :: nat list) \<longleftrightarrow> edge_test skew3 (1 / 2) 0 1 = Inr True)
   \<and> (0 \<in> set ([[1], [0], []] ! 1 :: nat list) \<longleftrightarrow> edge_test skew3 (1 / 2) 0 1 = Inr True)
   \<and> (2::nat) \<notin> set ([[1], [0], []] ! 2)"
  using adjacency_symmetric_loop_free[OF skew3_adj, of 0 1 2] skew3_adj by simp

subsection \<open>Sample runs\<close>

lemma ex_iso_run: "detectCluster ex_iso [''A''] (1 / 2) = Inr ex_iso_result"
  by code_simp

lemma ex4_run: "detectCluster ex4 [''A''] (1 / 2) = Inr ex4_result"
  by code_simp

lemma ex4_run_D: "detectCluster ex4 [''D'', ''Z''] (1 / 2) = Inr ex4_D_result"
  by code_simp

lemma ex9_run: "detectCluster ex9 [''A''] (1 / 2) = Inr ex9_result"
  by code_simp

lemma ex_iso_run_AB: "detectCluster ex_iso [''B'', ''Q'', ''A''] (1 / 2) = Inr ex_iso_AB_result"
  by code_simp

lemma ex4_run_Z: "detectCluster ex4 [''Z''] (1 / 2) = Inr seed_error_result"
  by code_simp


lemma ex4_run_constructor: "detectCluster ex4 [''constructor''] (1 / 2) = Inl TypeError"
  by code_simp

lemma ex4_run_A_constructor: "detectCluster ex4 [''A'', ''constructor''] (1 / 2) = Inl TypeError"
  by code_simp

subsection \<open>The error marker\<close>

lemma valid_filter_empty_iff:
  assumes "tickerIndex cd = buildTickerIndex (tickers cd)"
  shows "filter (\<lambda>t. prop_read (tickerIndex cd) t \<noteq> None) mh = []
     \<longleftrightarrow> set mh \<inter> (set (tickers cd) \<union> set object_prototype_keys) = {}"
  unfolding assms filter_empty_conv
  using prop_read_buildTickerIndex_None[of "tickers cd"] by auto

lemma valid_filter_nonempty:
  assumes "tickerIndex cd = buildTickerIndex (tickers cd)"
    and "set mh \<inter> set (tickers cd) \<noteq> {}"
  shows "filter (\<lambda>t. prop_read (tickerIndex cd) t \<noteq> None) mh \<noteq> []"
  using valid_filter_empty_iff[OF assms(1), of mh] assms(2) by blast

lemma detectCluster_error_result:
  "filter (\<lambda>t. prop_read (tickerIndex cd) t \<noteq> None) mh = [] \<Longrightarrow> detectCluster cd mh th = Inr seed_error_result"
  by (simp add: detectCluster_error seed_error_result_def)

lemma regular_result_nonempty:
  assumes "detectCluster cd mh th = Inr r"
    and "filter (\<lambda>t. prop_read (tickerIndex cd) t \<noteq> None) mh \<noteq> []"
  shows "error r = None" and "clusterTickers r \<noteq> []"
proof -
  let ?vmh = "filter (\<lambda>t. prop_read (tickerIndex cd) t \<noteq> None) mh"
  from detectCluster_regular[OF assms] obtain adj reachable co cid comps where
    a: "buildAdj (matrix cd) th (length (tickers cd)) = Inr adj"
    and s: "seed_loop (tickerIndex cd) adj ?vmh [] = Inr reachable"
    and r: "r = \<lparr> clusterTickers = sort (map (\<lambda>idx. tickers cd ! idx) reachable),
           components = array_sort component_cmp comps,
           error = None,
           validMustHave = Some ?vmh,
           threshold = Some th,
           totalNodes = Some (length (tickers cd)),
           nodesAboveThreshold = Some (length reachable) \<rparr>"
    by blast
  show "error r = None" unfolding r by simp
  define t where "t = hd ?vmh"
  have t: "t \<in> set ?vmh" unfolding t_def using assms(2) by (rule hd_in_set)
  with regular_reachable(4)[OF a s] obtain i where i: "tickerIndex cd t = Some i" by blast
  have "i \<in> (adj_rel adj)\<^sup>* `` {i. \<exists>t \<in> set ?vmh. tickerIndex cd t = Some i}"
    using t i by blast
  then have "i \<in> set reachable" using regular_reachable(1)[OF a s] by simp
  then have "reachable \<noteq> []" by auto
  then have "length (sort (map (\<lambda>idx. tickers cd ! idx) reachable)) \<noteq> 0" by simp
  then have "sort (map (\<lambda>idx. tickers cd ! idx) reachable) \<noteq> []"
    by (simp only: length_0_conv not_False_eq_True)
  then show "clusterTickers r \<noteq> []" unfolding r by simp
qed

lemma detectCluster_total:
  assumes "tickerIndex cd = buildTickerIndex (tickers cd)"
    and "length (matrix cd) = length (tickers cd)"
    and "set mh \<inter> set object_prototype_keys = {}"
  shows "\<exists>r. detectCluster cd mh th = Inr r"
proof (cases "filter (\<lambda>t. prop_read (tickerIndex cd) t \<noteq> None) mh = []")
  case True
  then show ?thesis by (simp add: detectCluster_error)
next
  case False
  let ?n = "length (tickers cd)"
  let ?vmh = "filter (\<lambda>t. prop_read (tickerIndex cd) t \<noteq> None) mh"
  from buildAdj_total[of ?n "matrix cd" th] assms(2)
  obtain adj where a: "buildAdj (matrix cd) th ?n = Inr adj" by auto
  note g = buildAdj_graph(2)[OF a] and len = buildAdj_rel(1)[OF a]
  have "\<forall>t \<in> set ?vmh. \<exists>i. tickerIndex cd t = Some i \<and> i < length adj"
  proof
    fix t assume t: "t \<in> set ?vmh"
    then have "t \<notin> set object_prototype_keys" using assms(3) by auto
    moreover from t have "prop_read (tickerIndex cd) t \<noteq> None" by simp
    ultimately obtain i where i: "tickerIndex cd t = Some i"
      by (cases "tickerIndex cd t") (auto simp: prop_read_def)
    with buildTickerIndex_Some[of "tickers cd" t i] len
    show "\<exists>i. tickerIndex cd t = Some i \<and> i < length adj" unfolding assms(1) by auto
  qed
  from seed_loop_total[OF this g, of "[]"]
  obtain reachable where s: "seed_loop (tickerIndex cd) adj ?vmh [] = Inr reachable" by blast
  have "\<forall>i \<in> set [0..<?n]. i < length adj" using len by simp
  from component_scan_total[OF this g, of "tickers cd" ?vmh "(replicate ?n (- 1), 0, [])"]
  obtain st where c: "component_scan adj (tickers cd) ?vmh [0..<?n] (replicate ?n (- 1), 0, [])
      = Inr st" by blast
  obtain co cid comps where st: "st = (co, cid, comps)" by (metis prod_cases3)
  have ne: "length ?vmh \<noteq> 0" using False by simp
  show ?thesis
    using ne a s c unfolding detectCluster_def detectCluster_with_def Let_def st by simp
qed

text \<open>
  For a request that names no property of \<open>Object.prototype\<close>, and the identifier index
  derived from the identifier sequence: if none of the requested identifiers occurs among
  the matrix's identifiers, the result has an empty \<open>clusterTickers\<close> list, an empty
  \<open>components\<close> list and the error marker; if at least one occurs, no returned result
  carries the marker, and on a matrix with one row per identifier a result is returned.
\<close>

lemma marker_on_plain_requests:
  assumes "tickerIndex cd = buildTickerIndex (tickers cd)"
    and "set mh \<inter> set object_prototype_keys = {}"
  shows "(set mh \<inter> set (tickers cd) = {} \<longrightarrow>
            (\<exists>r. detectCluster cd mh th = Inr r \<and> clusterTickers r = [] \<and> components r = []
                 \<and> error r = Some ''None of the must-have tickers found in data''))
       \<and> (set mh \<inter> set (tickers cd) \<noteq> {} \<longrightarrow>
            (\<forall>r. detectCluster cd mh th = Inr r \<longrightarrow> error r = None)
            \<and> (length (matrix cd) = length (tickers cd) \<longrightarrow>
                 (\<exists>r. detectCluster cd mh th = Inr r)))"
proof -
  have "detectCluster cd mh th = Inr seed_error_result" if "set mh \<inter> set (tickers cd) = {}"
  proof -
    from that assms(2)
    have "set mh \<inter> (set (tickers cd) \<union> set object_prototype_keys) = {}" by blast
    then have "filter (\<lambda>t. prop_read (tickerIndex cd) t \<noteq> None) mh = []"
      using valid_filter_empty_iff[OF assms(1), of mh] by blast
    then show ?thesis by (rule detectCluster_error_result)
  qed
  then have 1: "set mh \<inter> set (tickers cd) = {} \<longrightarrow>
            (\<exists>r. detectCluster cd mh th = Inr r \<and> clusterTickers r = [] \<and> components r = []
                 \<and> error r = Some ''None of the must-have tickers found in data'')"
    by (simp add: seed_error_result_def)
  have 2: "error r = None"
    if "set mh \<inter> set (tickers cd) \<noteq> {}" "detectCluster cd mh th = Inr r" for r
    using valid_filter_nonempty[OF assms(1) that(1)] regular_result_nonempty(1)[OF that(2)]
    by blast
  have 3: "\<exists>r. detectCluster cd mh th = Inr r" if "length (matrix cd) = length (tickers cd)"
    using detectCluster_total[OF assms(1) that assms(2)] .
  from 1 2 3 show ?thesis by blast
qed

text \<open>
  Claim C3. The source validates a requested identifier by \<open>tickerIndex[t] !== undefined\<close>
  on a plain object. A property name of \<open>Object.prototype\<close> such as \<open>constructor\<close> passes
  this test although it occurs nowhere among the matrix's identifiers: the request
  \<open>[constructor]\<close> does not get the marked empty result, and the request
  \<open>[A, constructor]\<close>, which has a valid identifier, gets no result at all. In both cases the
  search starts from the inherited function and throws a \<open>TypeError\<close> at \<open>adj[current]\<close>.
\<close>

theorem inherited_key_passes_validation:
  "set [''constructor''] \<inter> set (tickers ex4) = {}
   \<and> detectCluster ex4 [''constructor''] (1 / 2) = Inl TypeError
   \<and> set [''A'', ''constructor''] \<inter> set (tickers ex4) \<noteq> {}
   \<and> detectCluster ex4 [''A'', ''constructor''] (1 / 2) = Inl TypeError"
  using ex4_run_constructor ex4_run_A_constructor by (simp add: ex4_def)

text \<open>
  Claim C2, as the code has it. Every search starts by marking the seed itself as visited,
  so a result without the error marker lists at least one identifier: the list
  \<open>clusterTickers\<close> is empty exactly when the marker is set.
\<close>

theorem cluster_empty_iff_error:
  assumes "detectCluster cd mh th = Inr r"
  shows "clusterTickers r = [] \<longleftrightarrow> error r \<noteq> None"
proof (cases "filter (\<lambda>t. prop_read (tickerIndex cd) t \<noteq> None) mh = []")
  case True
  from detectCluster_error_result[OF this, of th] assms have "r = seed_error_result" by simp
  then show ?thesis by (simp add: seed_error_result_def)
next
  case False
  from regular_result_nonempty[OF assms False] show ?thesis by simp
qed

text \<open>
  The statement where A is present and has no qualifying edge: the list is \<open>[A]\<close>, not empty.
\<close>

theorem cluster_empty_iff_error_witness:
  "detectCluster ex_iso [''A''] (1 / 2) = Inr ex_iso_result
   \<and> clusterTickers ex_iso_result = [''A'']
   \<and> (clusterTickers ex_iso_result = [] \<longleftrightarrow> error ex_iso_result \<noteq> None)"
  using cluster_empty_iff_error[OF ex_iso_run] ex_iso_run by (simp add: ex_iso_result_def)

text \<open>
  Claim C2 as worded asks for an input with a present identifier, hence no error marker, and
  an empty \<open>clusterTickers\<close> list. There is none.
\<close>

theorem empty_cluster_without_error_counterexample:
  "\<not> (\<exists>cd mh th r. detectCluster cd mh th = Inr r \<and> error r = None \<and> clusterTickers r = [])"
proof
  assume "\<exists>cd mh th r. detectCluster cd mh th = Inr r \<and> error r = None \<and> clusterTickers r = []"
  then obtain cd mh th r where
    r: "detectCluster cd mh th = Inr r" "error r = None" "clusterTickers r = []" by blast
  show False
  proof (cases "filter (\<lambda>t. prop_read (tickerIndex cd) t \<noteq> None) mh = []")
    case True
    from detectCluster_error_result[OF this, of th] r(1) have "r = seed_error_result" by simp
    with r(2) show False by (simp add: seed_error_result_def)
  next
    case False
    from regular_result_nonempty(2)[OF r(1) False] r(3) show False by simp
  qed
qed

subsection \<open>Determinism\<close>

lemma component_cmp_key:
  "component_cmp a b \<le> 0 \<longleftrightarrow> component_key a \<le> component_key b"
  by (auto simp: component_cmp_le_iff component_key_def)

lemma component_cmp_key_eq:
  "component_cmp x k \<le> 0 \<and> component_cmp k x \<le> 0 \<longleftrightarrow> component_key k = component_key x"
  by (auto simp: component_cmp_le_iff component_key_def)

lemma insert_cmp_component_key:
  "insert_cmp component_cmp x ys = insort_key component_key x ys"
  by (induction ys) (simp_all add: component_cmp_key)

lemma array_sort_component_key:
  "array_sort component_cmp xs = sort_key component_key xs"
  by (induction xs) (simp_all add: array_sort_def insert_cmp_component_key)

text \<open>The contract leaves one result only.\<close>

lemma es_sort_cmp_unique:
  assumes "es_sort_cmp srt component_cmp"
  shows "srt component_cmp xs = array_sort component_cmp xs"
proof -
  let ?ys = "srt component_cmp xs"
  from assms have m: "mset ?ys = mset xs"
    and s: "sorted_wrt (\<lambda>a b. component_cmp a b \<le> 0) ?ys"
    and st: "\<And>k. filter (\<lambda>x. component_cmp x k \<le> 0 \<and> component_cmp k x \<le> 0) ?ys
                = filter (\<lambda>x. component_cmp x k \<le> 0 \<and> component_cmp k x \<le> 0) xs"
    unfolding es_sort_cmp_def by blast+
  have s': "sorted (map component_key ?ys)"
    using s by (simp add: sorted_map component_cmp_key)
  have st': "filter (\<lambda>x. component_key k = component_key x) ?ys
           = filter (\<lambda>x. component_key k = component_key x) xs" for k
    using st[of k] by (simp add: component_cmp_key_eq)
  have "sort_key component_key xs = ?ys"
    using m st' s' by (rule properties_for_sort_key)
  then show ?thesis by (simp add: array_sort_component_key)
qed

lemma es_sort_default_unique:
  assumes "es_sort_default srt"
  shows "srt xs = sort xs"
proof -
  from assms have "mset (srt xs) = mset xs" "sorted (srt xs)"
    unfolding es_sort_default_def by blast+
  then have "sort xs = srt xs" by (rule properties_for_sort)
  then show ?thesis by simp
qed

lemma detectCluster_with_conforming:
  assumes "es_sort_cmp srt component_cmp" and "es_sort_default dflt"
  shows "detectCluster_with srt dflt cd mh th = detectCluster cd mh th"
proof -
  have 1: "srt component_cmp = array_sort component_cmp"
    by (rule ext) (rule es_sort_cmp_unique[OF assms(1)])
  have 2: "dflt = sort"
    by (rule ext) (rule es_sort_default_unique[OF assms(2)])
  show ?thesis
    unfolding detectCluster_def detectCluster_with_def 1 2 ..
qed

lemma sort_key_component_contract:
  "mset (sort_key component_key xs) = mset xs"
  "sorted_wrt (\<lambda>a b. component_cmp a b \<le> 0) (sort_key component_key xs)"
  "filter (\<lambda>x. component_cmp x k \<le> 0 \<and> component_cmp k x \<le> 0) (sort_key component_key xs)
     = filter (\<lambda>x. component_cmp x k \<le> 0 \<and> component_cmp k x \<le> 0) xs"
proof -
  show "mset (sort_key component_key xs) = mset xs" by simp
  have "sorted (map component_key (sort_key component_key xs))" by (rule sorted_sort_key)
  then show "sorted_wrt (\<lambda>a b. component_cmp a b \<le> 0) (sort_key component_key xs)"
    by (simp add: sorted_map component_cmp_key)
  have eq: "(\<lambda>x. component_cmp x k \<le> 0 \<and> component_cmp k x \<le> 0)
      = (\<lambda>x. component_key x = component_key k)"
    by (rule ext) (simp add: component_cmp_key_eq eq_commute)
  show "filter (\<lambda>x. component_cmp x k \<le> 0 \<and> component_cmp k x \<le> 0) (sort_key component_key xs)
     = filter (\<lambda>x. component_cmp x k \<le> 0 \<and> component_cmp k x \<le> 0) xs"
    unfolding eq by (rule sort_key_stable)
qed

lemma es_sort_cmp_array_sort: "es_sort_cmp array_sort component_cmp"
  unfolding es_sort_cmp_def array_sort_component_key
  using sort_key_component_contract by blast

lemma es_sort_cmp_key_sort: "es_sort_cmp key_sort component_cmp"
  unfolding es_sort_cmp_def key_sort_def
  using sort_key_component_contract by blast

lemma es_sort_default_sort: "es_sort_default sort"
  by (simp add: es_sort_default_def)

lemma es_sort_default_reversing: "es_sort_default reversing_sort"
  by (simp add: es_sort_default_def reversing_sort_def)

lemma ex4_run_D_other:
  "detectCluster_with key_sort reversing_sort ex4 [''D'', ''Z''] (1 / 2) = Inr ex4_D_result"
  by code_simp

text \<open>
  Claim C9. Apart from its three arguments, an execution of \<open>detectCluster\<close> depends only
  on the engine's implementation of \<open>Array.prototype.sort\<close> (it reads no module state, clock
  or random source, and sets iterate in insertion order). For any two implementations that
  meet the ECMAScript contract, two calls with the same matrix data, the same must-have
  sequence and the same threshold return the same \<open>clusterTickers\<close> list and the same
  components with the same members in the same order.
\<close>

theorem detectCluster_deterministic:
  assumes "es_sort_cmp sortA component_cmp" and "es_sort_default defaultA"
    and "es_sort_cmp sortB component_cmp" and "es_sort_default defaultB"
    and "detectCluster_with sortA defaultA cd mh th = Inr r1"
    and "detectCluster_with sortB defaultB cd mh th = Inr r2"
  shows "clusterTickers r1 = clusterTickers r2
       \<and> map indices (components r1) = map indices (components r2)
       \<and> components r1 = components r2"
proof -
  have "detectCluster_with sortA defaultA cd mh th = detectCluster_with sortB defaultB cd mh th"
    using detectCluster_with_conforming[OF assms(1,2)] detectCluster_with_conforming[OF assms(3,4)]
    by simp
  with assms(5,6) have "r1 = r2" by simp
  then show ?thesis by simp
qed

text \<open>
  Two runs on the four-identifier scenario with the request \<open>[D, Z]\<close>: one with insertion
  sort by the comparator and the plain string sort, one with the library's key sort and the
  sort of the reversed array.
\<close>

theorem detectCluster_deterministic_witness:
  "es_sort_cmp array_sort component_cmp \<and> es_sort_default sort
   \<and> es_sort_cmp key_sort component_cmp \<and> es_sort_default reversing_sort
   \<and> detectCluster_with array_sort sort ex4 [''D'', ''Z''] (1 / 2) = Inr ex4_D_result
   \<and> detectCluster_with key_sort reversing_sort ex4 [''D'', ''Z''] (1 / 2) = Inr ex4_D_result
   \<and> clusterTickers ex4_D_result = [''C'', ''D'']
   \<and> map indices (components ex4_D_result) = [[2, 3], [0, 1]]"
proof -
  have a: "detectCluster_with array_sort sort ex4 [''D'', ''Z''] (1 / 2) = Inr ex4_D_result"
    using ex4_run_D by (simp add: detectCluster_def)
  from detectCluster_deterministic[OF es_sort_cmp_array_sort es_sort_default_sort
      es_sort_cmp_key_sort es_sort_default_reversing a ex4_run_D_other]
    es_sort_cmp_array_sort es_sort_default_sort es_sort_cmp_key_sort es_sort_default_reversing
    a ex4_run_D_other
  show ?thesis by (simp add: ex4_D_result_def)
qed

subsection \<open>Order of the component list\<close>

lemma regular_result_facts:
  assumes "detectCluster cd mh th = Inr r"
    and "filter (\<lambda>t. prop_read (tickerIndex cd) t \<noteq> None) mh \<noteq> []"
  obtains adj reachable co cid comps where
    "length adj = length (tickers cd)"
    "adj_rel adj = {(a, b). a < length (tickers cd) \<and> b < length (tickers cd)
                      \<and> qualifying_edge (matrix cd) th a b}"
    "sym (adj_rel adj)"
    "set reachable = (adj_rel adj)\<^sup>* ``
        {i. \<exists>t \<in> set (filter (\<lambda>t. prop_read (tickerIndex cd) t \<noteq> None) mh). tickerIndex cd t = Some i}"
    "distinct reachable" "\<forall>x \<in> set reachable. x < length (tickers cd)"
    "scan_inv adj (tickers cd) (filter (\<lambda>t. prop_read (tickerIndex cd) t \<noteq> None) mh) co cid comps"
    "\<forall>k < length (tickers cd). adj ! k \<noteq> [] \<longrightarrow> k \<in> assigned co"
    "clusterTickers r = sort (map (\<lambda>idx. tickers cd ! idx) reachable)"
    "components r = array_sort component_cmp comps"
    "\<forall>t \<in> set (filter (\<lambda>t. prop_read (tickerIndex cd) t \<noteq> None) mh). \<exists>i. tickerIndex cd t = Some i"
proof -
  let ?vmh = "filter (\<lambda>t. prop_read (tickerIndex cd) t \<noteq> None) mh"
  from detectCluster_regular[OF assms] obtain adj reachable co cid comps where
    a: "buildAdj (matrix cd) th (length (tickers cd)) = Inr adj"
    and s: "seed_loop (tickerIndex cd) adj ?vmh [] = Inr reachable"
    and c: "component_scan adj (tickers cd) ?vmh [0..<length (tickers cd)]
              (replicate (length (tickers cd)) (- 1), 0, []) = Inr (co, cid, comps)"
    and r: "r = \<lparr> clusterTickers = sort (map (\<lambda>idx. tickers cd ! idx) reachable),
           components = array_sort component_cmp comps,
           error = None,
           validMustHave = Some ?vmh,
           threshold = Some th,
           totalNodes = Some (length (tickers cd)),
           nodesAboveThreshold = Some (length reachable) \<rparr>"
    by blast
  show ?thesis
  proof (rule that[of adj reachable co cid comps])
    show "length adj = length (tickers cd)" by (rule buildAdj_rel(1)[OF a])
    show "adj_rel adj = {(a, b). a < length (tickers cd) \<and> b < length (tickers cd)
                      \<and> qualifying_edge (matrix cd) th a b}" by (rule buildAdj_rel(2)[OF a])
    show "sym (adj_rel adj)" by (rule buildAdj_graph(1)[OF a])
    show "set reachable = (adj_rel adj)\<^sup>* ``
        {i. \<exists>t \<in> set ?vmh. tickerIndex cd t = Some i}" by (rule regular_reachable(1)[OF a s])
    show "distinct reachable" by (rule regular_reachable(2)[OF a s])
    show "\<forall>x \<in> set reachable. x < length (tickers cd)" by (rule regular_reachable(3)[OF a s])
    show "scan_inv adj (tickers cd) ?vmh co cid comps" by (rule regular_components(1)[OF a c])
    show "\<forall>k < length (tickers cd). adj ! k \<noteq> [] \<longrightarrow> k \<in> assigned co"
      by (rule regular_components(2)[OF a c])
    show "clusterTickers r = sort (map (\<lambda>idx. tickers cd ! idx) reachable)" unfolding r by simp
    show "components r = array_sort component_cmp comps" unfolding r by simp
    show "\<forall>t \<in> set ?vmh. \<exists>i. tickerIndex cd t = Some i" by (rule regular_reachable(4)[OF a s])
  qed
qed

lemma component_ok_Min:
  assumes "component_ok adj tks vmh c"
  shows "Min (set (indices c)) = hd (indices c)"
proof (rule Min_eqI)
  show "finite (set (indices c))" by simp
  show "\<And>y. y \<in> set (indices c) \<Longrightarrow> hd (indices c) \<le> y"
    using assms unfolding component_ok_def by blast
  show "hd (indices c) \<in> set (indices c)"
    using assms unfolding component_ok_def by simp
qed

lemma scan_inv_nth:
  assumes "scan_inv adj tks vmh co cid comps" and "i < length comps"
  shows "comp_id (comps ! i) = i"
proof -
  from assms(1) have m: "map comp_id comps = [0..<cid]" unfolding scan_inv_def by blast
  then have "length comps = cid" by (metis length_map length_upt minus_nat.diff_0)
  with assms(2) have "[0..<cid] ! i = i" by simp
  with m assms(2) show ?thesis by (metis nth_map)
qed

lemma scan_inv_roots:
  assumes "scan_inv adj tks vmh co cid comps" and "i < j" and "j < length comps"
  shows "hd (indices (comps ! i)) < hd (indices (comps ! j))"
proof -
  from assms(1) have "sorted_wrt (<) (map (\<lambda>c. hd (indices c)) comps)"
    unfolding scan_inv_def by blast
  from sorted_wrt_nth_less[OF this, of i j] assms(2,3) show ?thesis by simp
qed

lemma scan_inv_id_root:
  assumes inv: "scan_inv adj tks vmh co cid comps"
    and "c1 \<in> set comps" and "c2 \<in> set comps"
  shows "comp_id c1 < comp_id c2 \<longleftrightarrow> hd (indices c1) < hd (indices c2)"
proof -
  from assms(2) obtain i where i: "i < length comps" "comps ! i = c1"
    by (auto simp: in_set_conv_nth)
  from assms(3) obtain j where j: "j < length comps" "comps ! j = c2"
    by (auto simp: in_set_conv_nth)
  have ids: "comp_id c1 = i" "comp_id c2 = j"
    using scan_inv_nth[OF inv i(1)] scan_inv_nth[OF inv j(1)] i j by auto
  consider "i < j" | "i = j" | "j < i" by linarith
  then show ?thesis
  proof cases
    case 1
    from scan_inv_roots[OF inv 1 j(1)] 1 i j ids show ?thesis by simp
  next
    case 2
    with i j ids show ?thesis by auto
  next
    case 3
    from scan_inv_roots[OF inv 3 i(1)] 3 i j ids show ?thesis by simp
  qed
qed

lemma scan_inv_ids_increasing:
  assumes "scan_inv adj tks vmh co cid comps"
  shows "sorted_wrt (\<lambda>a b. comp_id a < comp_id b) comps"
proof -
  from assms have "map comp_id comps = [0..<cid]" unfolding scan_inv_def by blast
  then have "sorted_wrt (<) (map comp_id comps)" by simp
  then show ?thesis by (simp add: sorted_wrt_map)
qed

text \<open>
  Claim C5. In the returned component list, a component that contains a must-have node stands
  before every component that contains none; among components that agree on this flag the
  larger one stands first; and components that agree on flag and size keep their discovery
  order, which is the ascending order of their component number and of their smallest member
  index.
\<close>

theorem component_ordering:
  assumes "detectCluster cd mh th = Inr r"
    and "a < length (components r)" and "b < length (components r)"
  shows "(let A = components r ! a; B = components r ! b in
           (containsMustHave A \<and> \<not> containsMustHave B \<longrightarrow> a < b)
         \<and> (containsMustHave A = containsMustHave B \<and> comp_size B < comp_size A \<longrightarrow> a < b)
         \<and> (containsMustHave A = containsMustHave B \<and> comp_size A = comp_size B \<longrightarrow>
              (a < b \<longleftrightarrow> comp_id A < comp_id B)
            \<and> (a < b \<longleftrightarrow> Min (set (indices A)) < Min (set (indices B)))))"
proof (cases "filter (\<lambda>t. prop_read (tickerIndex cd) t \<noteq> None) mh = []")
  case True
  from detectCluster_error_result[OF this, of th] assms(1) have "r = seed_error_result" by simp
  with assms(2) show ?thesis by (simp add: seed_error_result_def)
next
  case False
  from regular_result_facts[OF assms(1) False] obtain adj co cid comps where
    inv: "scan_inv adj (tickers cd) (filter (\<lambda>t. prop_read (tickerIndex cd) t \<noteq> None) mh) co cid comps"
    and cs: "components r = array_sort component_cmp comps"
    by metis
  let ?s = "components r"
  let ?P = "\<lambda>x y. component_cmp x y \<le> 0 \<and> (component_cmp y x \<le> 0 \<longrightarrow> comp_id x < comp_id y)"
  have srt: "sorted_wrt ?P ?s"
    unfolding cs
    by (rule array_sort_lex[OF component_cmp_total component_cmp_trans scan_inv_ids_increasing[OF inv]])
  have pos: "?P (?s ! i) (?s ! j)" if "i < j" "j < length ?s" for i j
    using sorted_wrt_nth_less[OF srt that] .
  define A where "A = ?s ! a"
  define B where "B = ?s ! b"
  have A_in: "A \<in> set comps" and B_in: "B \<in> set comps"
    using assms(2,3) cs unfolding A_def B_def by (metis nth_mem set_array_sort)+
  have oks: "component_ok adj (tickers cd) (filter (\<lambda>t. prop_read (tickerIndex cd) t \<noteq> None) mh) A"
    "component_ok adj (tickers cd) (filter (\<lambda>t. prop_read (tickerIndex cd) t \<noteq> None) mh) B"
    using inv A_in B_in unfolding scan_inv_def by blast+
  have mins: "Min (set (indices A)) = hd (indices A)" "Min (set (indices B)) = hd (indices B)"
    using oks by (auto dest: component_ok_Min)
  have id_root: "comp_id A < comp_id B \<longleftrightarrow> hd (indices A) < hd (indices B)"
    by (rule scan_inv_id_root[OF inv A_in B_in])
  have ab: "?P A B" if "a < b" using pos[OF that assms(3)] unfolding A_def B_def .
  have ba: "?P B A" if "b < a" using pos[OF that assms(2)] unfolding A_def B_def .
  have eq: "A = B" if "a = b" using that unfolding A_def B_def by simp
  have 1: "containsMustHave A \<and> \<not> containsMustHave B \<longrightarrow> a < b"
  proof (rule impI, rule ccontr)
    assume h: "containsMustHave A \<and> \<not> containsMustHave B" and "\<not> a < b"
    then consider "a = b" | "b < a" by linarith
    then show False
    proof cases
      case 1
      with eq h show False by simp
    next
      case 2
      from ba[OF 2] h show False by (simp add: component_cmp_le_iff)
    qed
  qed
  have 2: "containsMustHave A = containsMustHave B \<and> comp_size B < comp_size A \<longrightarrow> a < b"
  proof (rule impI, rule ccontr)
    assume h: "containsMustHave A = containsMustHave B \<and> comp_size B < comp_size A" and "\<not> a < b"
    then consider "a = b" | "b < a" by linarith
    then show False
    proof cases
      case 1
      with eq h show False by simp
    next
      case 2
      from ba[OF 2] h show False by (auto simp: component_cmp_le_iff)
    qed
  qed
  have 3: "a < b \<longleftrightarrow> comp_id A < comp_id B"
    if h: "containsMustHave A = containsMustHave B \<and> comp_size A = comp_size B"
  proof -
    have both: "component_cmp A B \<le> 0" "component_cmp B A \<le> 0"
      using h by (auto simp: component_cmp_le_iff)
    consider "a < b" | "a = b" | "b < a" by linarith
    then show ?thesis
    proof cases
      case 1
      from ab[OF 1] both 1 show ?thesis by simp
    next
      case 2
      with eq show ?thesis by simp
    next
      case 3
      from ba[OF 3] both 3 show ?thesis by simp
    qed
  qed
  show ?thesis
    unfolding Let_def A_def[symmetric] B_def[symmetric]
    using 1 2 3 id_root mins by simp
qed

text \<open>
  The statement on the nine-identifier scenario with the request \<open>[A]\<close>. The returned order
  is \<open>{A, B}\<close> (must-have), \<open>{E, F, G}\<close> (size 3, discovered third), \<open>{C, D}\<close> and
  \<open>{H, I}\<close> (both size 2, in discovery order).
\<close>

theorem component_ordering_witness:
  "detectCluster ex9 [''A''] (1 / 2) = Inr ex9_result
   \<and> length (components ex9_result) = 4
   \<and> (containsMustHave (components ex9_result ! 0)
        \<and> \<not> containsMustHave (components ex9_result ! 1) \<and> (0::nat) < 1)
   \<and> (containsMustHave (components ex9_result ! 1) = containsMustHave (components ex9_result ! 2)
        \<and> comp_size (components ex9_result ! 2) < comp_size (components ex9_result ! 1)
        \<and> (1::nat) < 2)
   \<and> (containsMustHave (components ex9_result ! 2) = containsMustHave (components ex9_result ! 3)
        \<and> comp_size (components ex9_result ! 2) = comp_size (components ex9_result ! 3)
        \<and> ((2::nat) < 3 \<longleftrightarrow>
               comp_id (components ex9_result ! 2) < comp_id (components ex9_result ! 3))
        \<and> ((2::nat) < 3 \<longleftrightarrow>
               Min (set (indices (components ex9_result ! 2)))
                 < Min (set (indices (components ex9_result ! 3)))))"
  using component_ordering[OF ex9_run, of 0 1] component_ordering[OF ex9_run, of 1 2]
    component_ordering[OF ex9_run, of 2 3] ex9_run
  by (simp add: ex9_result_def)

subsection \<open>Components and isolated nodes\<close>

lemma length_filter_one:
  assumes "\<exists>c \<in> set xs. P c"
    and "\<And>i j. i < j \<Longrightarrow> j < length xs \<Longrightarrow> \<not> (P (xs ! i) \<and> P (xs ! j))"
  shows "length (filter P xs) = 1"
  using assms
proof (induction xs)
  case Nil
  then show ?case by simp
next
  case (Cons x xs)
  show ?case
  proof (cases "P x")
    case True
    have "\<not> P y" if "y \<in> set xs" for y
    proof -
      from that obtain k where k: "k < length xs" "xs ! k = y" by (auto simp: in_set_conv_nth)
      from Cons.prems(2)[of 0 "Suc k"] k True show ?thesis by auto
    qed
    then have "filter P xs = []" by (simp add: filter_empty_conv)
    with True show ?thesis by simp
  next
    case False
    with Cons.prems(1) have ex: "\<exists>c \<in> set xs. P c" by auto
    have "\<not> (P (xs ! i) \<and> P (xs ! j))" if "i < j" "j < length xs" for i j
      using Cons.prems(2)[of "Suc i" "Suc j"] that by simp
    from Cons.IH[OF ex this] False show ?thesis by simp
  qed
qed

lemma component_ok_member_edge:
  assumes ok: "component_ok adj tks vmh c" and symR: "sym (adj_rel adj)"
    and x: "x \<in> set (indices c)"
  shows "\<exists>y \<in> set (indices c). (x, y) \<in> adj_rel adj"
proof -
  let ?R = "adj_rel adj"
  let ?root = "hd (indices c)"
  from ok have cls: "set (indices c) = ?R\<^sup>* `` {?root}"
    and rl: "?root < length adj" and deg: "adj ! ?root \<noteq> []"
    unfolding component_ok_def by blast+
  from x cls have rx: "(?root, x) \<in> ?R\<^sup>*" by auto
  show ?thesis
  proof (cases "x = ?root")
    case True
    from deg obtain y where "y \<in> set (adj ! ?root)" by (cases "adj ! ?root") auto
    with rl have e: "(?root, y) \<in> ?R" by (simp add: adj_rel_def)
    then have "y \<in> set (indices c)" unfolding cls by auto
    with e True show ?thesis by auto
  next
    case False
    from rtrancl_other_has_pred[OF rx False] obtain z where "(z, x) \<in> ?R" by blast
    with symR have e: "(x, z) \<in> ?R" by (auto dest: symD)
    with rx have "(?root, z) \<in> ?R\<^sup>*" by (rule rtrancl_into_rtrancl)
    then have "z \<in> set (indices c)" unfolding cls by auto
    with e show ?thesis by auto
  qed
qed

lemma scan_inv_disjoint:
  assumes inv: "scan_inv adj tks vmh co cid comps" and symR: "sym (adj_rel adj)"
    and ij: "i < j" "j < length comps"
  shows "\<not> (x \<in> set (indices (comps ! i)) \<and> x \<in> set (indices (comps ! j)))"
proof
  let ?R = "adj_rel adj"
  let ?ri = "hd (indices (comps ! i))"
  let ?rj = "hd (indices (comps ! j))"
  assume both: "x \<in> set (indices (comps ! i)) \<and> x \<in> set (indices (comps ! j))"
  have oki: "component_ok adj tks vmh (comps ! i)" and okj: "component_ok adj tks vmh (comps ! j)"
    using inv ij unfolding scan_inv_def by auto
  from oki have ci: "set (indices (comps ! i)) = ?R\<^sup>* `` {?ri}"
    and mi: "\<forall>k \<in> set (indices (comps ! i)). ?ri \<le> k"
    unfolding component_ok_def by blast+
  from okj have cj: "set (indices (comps ! j)) = ?R\<^sup>* `` {?rj}"
    unfolding component_ok_def by blast
  have symS: "sym (?R\<^sup>*)" using symR by (rule sym_rtrancl)
  from both ci cj have "(?ri, x) \<in> ?R\<^sup>*" "(?rj, x) \<in> ?R\<^sup>*" by auto
  with symS have "(?rj, ?ri) \<in> ?R\<^sup>*" by (meson rtrancl_trans symD)
  with symS have "(?ri, ?rj) \<in> ?R\<^sup>*" by (meson symD)
  then have "?rj \<in> set (indices (comps ! i))" unfolding ci by auto
  with mi have "?ri \<le> ?rj" by blast
  have "(?rj, ?ri) \<in> ?R\<^sup>*" by fact
  then have "?ri \<in> set (indices (comps ! j))" unfolding cj by auto
  moreover from okj have "\<forall>k \<in> set (indices (comps ! j)). ?rj \<le> k"
    unfolding component_ok_def by blast
  ultimately have "?rj \<le> ?ri" by blast
  with scan_inv_roots[OF inv ij] show False by simp
qed

text \<open>
  On a square symmetric matrix the edge notion is the plain test on \<open>matrix[x][y]\<close>.
\<close>

lemma qualifying_edge_symmetric_matrix:
  assumes "x < length m" and "y < length m"
    and "\<forall>i < length m. length (m ! i) = length m"
    and "\<forall>i < length m. \<forall>j < length m. m ! i ! j = m ! j ! i"
  shows "qualifying_edge m th x y \<longleftrightarrow> x \<noteq> y \<and> th \<le> \<bar>m ! x ! y\<bar>"
proof (cases "x \<le> y")
  case True
  then have "min x y = x" "max x y = y" by auto
  with assms(1-3) show ?thesis
    by (simp add: qualifying_edge_def edge_test_def js_index_def)
next
  case False
  then have mm: "min x y = y" "max x y = x" by auto
  from assms(1,2,4) have "m ! y ! x = m ! x ! y" by simp
  with assms(1-3) mm False show ?thesis
    by (simp add: qualifying_edge_def edge_test_def js_index_def)
qed

text \<open>
  Claim C4, as the code has it. Read the matrix as symmetric (the entry above the diagonal
  decides). In every returned component list, each member of a component has a qualifying
  edge to another member of the same component, so no isolated node is listed. When the
  result carries no error marker, every node with at least one qualifying edge lies in
  exactly one component of the list.
\<close>

theorem components_without_isolated_nodes:
  assumes "detectCluster cd mh th = Inr r"
  shows "(\<forall>c \<in> set (components r). \<forall>x \<in> set (indices c).
            \<exists>y \<in> set (indices c). y \<noteq> x \<and> qualifying_edge (matrix cd) th x y)
       \<and> (error r = None \<longrightarrow>
            (\<forall>x < length (tickers cd).
               (\<exists>y < length (tickers cd). qualifying_edge (matrix cd) th x y) \<longrightarrow>
               length (components_containing x (components r)) = 1))"
proof (cases "filter (\<lambda>t. prop_read (tickerIndex cd) t \<noteq> None) mh = []")
  case True
  from detectCluster_error_result[OF this, of th] assms have "r = seed_error_result" by simp
  then show ?thesis by (simp add: seed_error_result_def)
next
  case False
  let ?n = "length (tickers cd)"
  let ?vmh = "filter (\<lambda>t. prop_read (tickerIndex cd) t \<noteq> None) mh"
  show ?thesis
  proof (rule regular_result_facts[OF assms False], goal_cases)
  case (1 adj reachable co cid comps)
  note len = "1"(1) and rel = "1"(2) and symR = "1"(3) and inv = "1"(7)
    and cover = "1"(8) and cs = "1"(10)
  have oks: "\<forall>c \<in> set comps. component_ok adj (tickers cd) ?vmh c"
    and asg: "assigned co = \<Union> (set ` indices ` set comps)"
    using inv unfolding scan_inv_def by blast+
  have part1: "\<forall>c \<in> set (components r). \<forall>x \<in> set (indices c).
            \<exists>y \<in> set (indices c). y \<noteq> x \<and> qualifying_edge (matrix cd) th x y"
  proof (intro ballI)
    fix c x assume c: "c \<in> set (components r)" and x: "x \<in> set (indices c)"
    from c cs have "c \<in> set comps" by simp
    with oks have "component_ok adj (tickers cd) ?vmh c" by blast
    from component_ok_member_edge[OF this symR x]
    obtain y where y: "y \<in> set (indices c)" "(x, y) \<in> adj_rel adj" by blast
    from y(2) have "qualifying_edge (matrix cd) th x y" unfolding rel by simp
    moreover from this have "y \<noteq> x" by (auto simp: qualifying_edge_def)
    ultimately show "\<exists>y \<in> set (indices c). y \<noteq> x \<and> qualifying_edge (matrix cd) th x y"
      using y(1) by blast
  qed
  have part2: "length (components_containing x (components r)) = 1"
    if x: "x < ?n" and deg: "\<exists>y < ?n. qualifying_edge (matrix cd) th x y" for x
  proof -
    from deg obtain y where "y < ?n" "qualifying_edge (matrix cd) th x y" by blast
    with x have "(x, y) \<in> adj_rel adj" unfolding rel by simp
    then have "adj ! x \<noteq> []" by (rule adj_rel_nonempty)
    with cover x have "x \<in> assigned co" by blast
    with asg have ex: "\<exists>c \<in> set comps. x \<in> set (indices c)" by auto
    have "length (filter (\<lambda>c. x \<in> set (indices c)) comps) = 1"
      using ex scan_inv_disjoint[OF inv symR] by (rule length_filter_one)
    then show ?thesis
      unfolding components_containing_def cs by (simp add: length_filter_array_sort)
  qed
  from part1 part2 show ?case by blast
  qed
qed

text \<open>
  The statement on the nine-identifier scenario: node 5 (F) has the qualifying edge to node 4
  inside its component \<open>{E, F, G}\<close>, and lies in exactly one component.
\<close>

theorem components_without_isolated_nodes_witness:
  "detectCluster ex9 [''A''] (1 / 2) = Inr ex9_result
   \<and> components ex9_result ! 1 \<in> set (components ex9_result)
   \<and> 5 \<in> set (indices (components ex9_result ! 1))
   \<and> (\<exists>y \<in> set (indices (components ex9_result ! 1)). y \<noteq> 5 \<and> qualifying_edge (matrix ex9) (1 / 2) 5 y)
   \<and> error ex9_result = None
   \<and> 5 < length (tickers ex9)
   \<and> qualifying_edge (matrix ex9) (1 / 2) 5 4
   \<and> length (components_containing 5 (components ex9_result)) = 1"
proof -
  note t = components_without_isolated_nodes[OF ex9_run]
  have c: "components ex9_result ! 1 \<in> set (components ex9_result)"
    by (simp add: ex9_result_def)
  have x: "5 \<in> set (indices (components ex9_result ! 1))" by (simp add: ex9_result_def)
  have e: "error ex9_result = None" by (simp add: ex9_result_def)
  have n: "5 < length (tickers ex9)" "4 < length (tickers ex9)" by (simp_all add: ex9_def)
  have q: "qualifying_edge (matrix ex9) (1 / 2) 5 4"
    by (simp add: qualifying_edge_def edge_test_def js_index_def ex9_def)
  from t c x have 1: "\<exists>y \<in> set (indices (components ex9_result ! 1)).
      y \<noteq> 5 \<and> qualifying_edge (matrix ex9) (1 / 2) 5 y" by blast
  from t e n q have 2: "length (components_containing 5 (components ex9_result)) = 1" by blast
  from ex9_run c x 1 e n(1) q 2 show ?thesis by blast
qed

text \<open>
  Claim C4 as worded has no condition on the must-have identifiers. With the request \<open>[Z]\<close>
  on the four-identifier scenario the early return gives an empty component list, although
  node 0 (A) has a qualifying edge to node 1.
\<close>

theorem components_partition_counterexample:
  "detectCluster ex4 [''Z''] (1 / 2) = Inr seed_error_result
   \<and> qualifying_edge (matrix ex4) (1 / 2) 0 1
   \<and> length (components_containing 0 (components seed_error_result)) \<noteq> 1"
proof -
  have "qualifying_edge (matrix ex4) (1 / 2) 0 1"
    by (simp add: qualifying_edge_def edge_test_def js_index_def ex4_def)
  then show ?thesis
    using ex4_run_Z by (simp add: components_containing_def seed_error_result_def)
qed

subsection \<open>The cluster list\<close>

lemma rtrancl_other_has_succ:
  assumes "(x, y) \<in> R\<^sup>*" and "y \<noteq> x"
  shows "\<exists>z. (x, z) \<in> R"
  using assms by (auto elim: converse_rtranclE)

lemma sort_distinct_eq:
  fixes xs ys :: "'a::linorder list"
  assumes "distinct xs" and "set xs = set ys"
  shows "sort xs = sort (remdups ys)"
proof -
  have "sort xs = sort (remdups xs)" using assms(1) by (simp add: distinct_remdups_id)
  also have "\<dots> = sorted_list_of_set (set xs)" by (simp add: sorted_list_of_set_sort_remdups)
  also have "\<dots> = sorted_list_of_set (set ys)" using assms(2) by simp
  also have "\<dots> = sort (remdups ys)" by (simp add: sorted_list_of_set_sort_remdups)
  finally show ?thesis .
qed

lemma component_ok_fields:
  assumes "component_ok adj tks vmh c"
  shows "comp_tickers c = map (\<lambda>idx. tks ! idx) (indices c)"
    and "containsMustHave c \<longleftrightarrow> (\<exists>idx \<in> set (indices c). tks ! idx \<in> set vmh)"
proof -
  from assms have c: "c = make_component tks vmh (comp_id c) (indices c)"
    unfolding component_ok_def by blast
  have "comp_tickers c = comp_tickers (make_component tks vmh (comp_id c) (indices c))"
    using c by simp
  then show "comp_tickers c = map (\<lambda>idx. tks ! idx) (indices c)"
    by (simp add: make_component_def)
  have "containsMustHave c = containsMustHave (make_component tks vmh (comp_id c) (indices c))"
    using c by simp
  then show "containsMustHave c \<longleftrightarrow> (\<exists>idx \<in> set (indices c). tks ! idx \<in> set vmh)"
    by (simp add: make_component_def list_ex_iff)
qed

lemma cluster_set_eq:
  assumes dist: "distinct tks" and ti: "ti = buildTickerIndex tks"
    and vmh: "\<forall>t \<in> set vmh. ti t \<noteq> None"
    and symR: "sym (adj_rel adj)"
    and len: "length adj = length tks"
    and inv: "scan_inv adj tks vmh co cid comps"
    and cover: "\<forall>k < length tks. adj ! k \<noteq> [] \<longrightarrow> k \<in> assigned co"
    and reach: "set reachable = (adj_rel adj)\<^sup>* `` {i. \<exists>t \<in> set vmh. ti t = Some i}"
  shows "(\<lambda>idx. tks ! idx) ` set reachable
       = (\<Union>c \<in> {c \<in> set comps. containsMustHave c}. set (comp_tickers c)) \<union> set vmh"
proof -
  let ?R = "adj_rel adj"
  let ?S = "{i. \<exists>t \<in> set vmh. ti t = Some i}"
  let ?n = "length tks"
  have symS: "sym (?R\<^sup>*)" using symR by (rule sym_rtrancl)
  have oks: "\<forall>c \<in> set comps. component_ok adj tks vmh c"
    and asg: "assigned co = \<Union> (set ` indices ` set comps)"
    and lco: "length co = length adj"
    using inv unfolding scan_inv_def by blast+
  have F1: "i < ?n \<and> tks ! i \<in> set vmh" if "i \<in> ?S" for i
  proof -
    from that obtain t where t: "t \<in> set vmh" "ti t = Some i" by blast
    from buildTickerIndex_Some[of tks t i] t(2) ti have "i < ?n" "tks ! i = t" by auto
    with t(1) show ?thesis by simp
  qed
  have F2: "idx \<in> ?S" if "idx < ?n" "tks ! idx \<in> set vmh" for idx
  proof -
    from that(2) vmh have "buildTickerIndex tks (tks ! idx) \<noteq> None" unfolding ti by blast
    from buildTickerIndex_own[OF dist this that(1)] that(2) show ?thesis unfolding ti by blast
  qed
  have F4: "k < ?n" if "c \<in> set comps" "k \<in> set (indices c)" for c k
  proof -
    from that asg have "k \<in> assigned co" by auto
    then show ?thesis using lco len by (simp add: assigned_def)
  qed
  have cls: "set (indices c) = ?R\<^sup>* `` {hd (indices c)}" if "c \<in> set comps" for c
    using oks that unfolding component_ok_def by blast
  show ?thesis
  proof (intro set_eqI iffI)
    fix y assume "y \<in> (\<lambda>idx. tks ! idx) ` set reachable"
    then obtain x where x: "x \<in> set reachable" "y = tks ! x" by blast
    with reach obtain s where s: "s \<in> ?S" "(s, x) \<in> ?R\<^sup>*" by auto
    show "y \<in> (\<Union>c \<in> {c \<in> set comps. containsMustHave c}. set (comp_tickers c)) \<union> set vmh"
    proof (cases "x = s")
      case True
      with F1[OF s(1)] x(2) show ?thesis by simp
    next
      case False
      from rtrancl_other_has_succ[OF s(2) False] obtain z where "(s, z) \<in> ?R" by blast
      then have "adj ! s \<noteq> []" by (rule adj_rel_nonempty)
      with cover F1[OF s(1)] have "s \<in> assigned co" by blast
      with asg obtain c where c: "c \<in> set comps" "s \<in> set (indices c)" by auto
      from oks c(1) have ok: "component_ok adj tks vmh c" by blast
      have "containsMustHave c"
        using component_ok_fields(2)[OF ok] c(2) F1[OF s(1)] by blast
      moreover have "x \<in> set (indices c)"
      proof -
        from c(2) cls[OF c(1)] have "(hd (indices c), s) \<in> ?R\<^sup>*" by auto
        from this s(2) have "(hd (indices c), x) \<in> ?R\<^sup>*" by (rule rtrancl_trans)
        then show ?thesis unfolding cls[OF c(1)] by auto
      qed
      ultimately show ?thesis
        using c(1) x(2) component_ok_fields(1)[OF ok] by auto
    qed
  next
    fix y assume "y \<in> (\<Union>c \<in> {c \<in> set comps. containsMustHave c}. set (comp_tickers c)) \<union> set vmh"
    then consider (comp) c where "c \<in> set comps" "containsMustHave c" "y \<in> set (comp_tickers c)"
      | (seed) "y \<in> set vmh" by auto
    then show "y \<in> (\<lambda>idx. tks ! idx) ` set reachable"
    proof cases
      case comp
      from oks comp(1) have ok: "component_ok adj tks vmh c" by blast
      from comp(3) component_ok_fields(1)[OF ok] obtain k where
        k: "k \<in> set (indices c)" "y = tks ! k" by auto
      from comp(2) component_ok_fields(2)[OF ok] obtain idx where
        idx: "idx \<in> set (indices c)" "tks ! idx \<in> set vmh" by blast
      have "idx \<in> ?S" using F2[OF F4[OF comp(1) idx(1)] idx(2)] .
      moreover have "(idx, k) \<in> ?R\<^sup>*"
      proof -
        from idx(1) k(1) cls[OF comp(1)]
        have "(hd (indices c), idx) \<in> ?R\<^sup>*" "(hd (indices c), k) \<in> ?R\<^sup>*" by auto
        with symS show ?thesis by (meson rtrancl_trans symD)
      qed
      ultimately have "k \<in> set reachable" unfolding reach by blast
      with k(2) show ?thesis by blast
    next
      case seed
      with vmh obtain i where i: "ti y = Some i" by blast
      with seed have "i \<in> ?S" by blast
      then have "i \<in> set reachable" unfolding reach by blast
      moreover from buildTickerIndex_Some[of tks y i] i ti have "tks ! i = y" by simp
      ultimately show ?thesis by blast
    qed
  qed
qed

text \<open>
  Claim C1, as the code has it. For distinct identifiers indexed as \<open>loadCorrelationForYear\<close>
  does, and a request with at least one identifier present in the matrix, \<open>clusterTickers\<close>
  is the deduplicated, ascending-sorted union of the identifiers of the components whose
  \<open>containsMustHave\<close> flag is true, together with the valid must-have identifiers
  themselves: a valid identifier without any qualifying edge belongs to no component and is
  listed all the same.
\<close>

theorem cluster_tickers_union:
  assumes "detectCluster cd mh th = Inr r"
    and "distinct (tickers cd)" and "tickerIndex cd = buildTickerIndex (tickers cd)"
    and "set mh \<inter> set (tickers cd) \<noteq> {}"
  shows "clusterTickers r =
           sorted_union (map comp_tickers (filter containsMustHave (components r))
                         @ [filter (\<lambda>t. t \<in> set (tickers cd)) mh])"
proof -
  let ?vmh = "filter (\<lambda>t. prop_read (tickerIndex cd) t \<noteq> None) mh"
  let ?T = "tickers cd"
  have ne: "?vmh \<noteq> []" by (rule valid_filter_nonempty[OF assms(3,4)])
  show ?thesis
  proof (rule regular_result_facts[OF assms(1) ne], goal_cases)
    case (1 adj reachable co cid comps)
    note len = "1"(1) and symR = "1"(3) and reach = "1"(4) and dr = "1"(5) and rn = "1"(6)
      and inv = "1"(7) and cover = "1"(8) and ct = "1"(9) and cs = "1"(10) and own = "1"(11)
    have vmh_eq: "filter (\<lambda>t. t \<in> set ?T) mh = ?vmh"
    proof (rule filter_cong[OF refl])
      fix t assume "t \<in> set mh"
      show "(t \<in> set ?T) = (prop_read (tickerIndex cd) t \<noteq> None)"
      proof
        assume "t \<in> set ?T"
        then show "prop_read (tickerIndex cd) t \<noteq> None"
          using prop_read_buildTickerIndex_None[of ?T t] unfolding assms(3) by blast
      next
        assume "prop_read (tickerIndex cd) t \<noteq> None"
        with \<open>t \<in> set mh\<close> have "t \<in> set ?vmh" by simp
        with own obtain i where "tickerIndex cd t = Some i" by blast
        then show "t \<in> set ?T"
          using buildTickerIndex_Some[of ?T t i] unfolding assms(3) by auto
      qed
    qed
    have seteq: "(\<lambda>idx. ?T ! idx) ` set reachable
       = (\<Union>c \<in> {c \<in> set comps. containsMustHave c}. set (comp_tickers c)) \<union> set ?vmh"
      by (rule cluster_set_eq[OF assms(2,3) _ symR len inv cover reach]) (use own in blast)
    have inj: "inj_on (\<lambda>idx. ?T ! idx) (set reachable)"
      using assms(2) rn by (auto simp: inj_on_def nth_eq_iff_index_eq)
    have d: "distinct (map (\<lambda>idx. ?T ! idx) reachable)"
      using dr inj by (simp add: distinct_map)
    let ?lists = "map comp_tickers (filter containsMustHave (components r)) @ [?vmh]"
    have "set (concat ?lists)
        = (\<Union>c \<in> {c \<in> set comps. containsMustHave c}. set (comp_tickers c)) \<union> set ?vmh"
      unfolding cs by auto
    with seteq have "set (map (\<lambda>idx. ?T ! idx) reachable) = set (concat ?lists)" by simp
    from sort_distinct_eq[OF d this] show ?case
      unfolding ct sorted_union_def vmh_eq .
  qed
qed

text \<open>
  The statement where A has no qualifying edge and B is joined to C, with the request
  \<open>[B, Q, A]\<close>: the component \<open>{B, C}\<close> and the lone seed A give \<open>[A, B, C]\<close>.
\<close>

theorem cluster_tickers_union_witness:
  "detectCluster ex_iso [''B'', ''Q'', ''A''] (1 / 2) = Inr ex_iso_AB_result
   \<and> distinct (tickers ex_iso)
   \<and> set [''B'', ''Q'', ''A''] \<inter> set (tickers ex_iso) \<noteq> {}
   \<and> clusterTickers ex_iso_AB_result = [''A'', ''B'', ''C'']
   \<and> clusterTickers ex_iso_AB_result =
       sorted_union (map comp_tickers (filter containsMustHave (components ex_iso_AB_result))
                     @ [filter (\<lambda>t. t \<in> set (tickers ex_iso)) [''B'', ''Q'', ''A'']])"
proof -
  have d: "distinct (tickers ex_iso)" by (simp add: ex_iso_def)
  have ti: "tickerIndex ex_iso = buildTickerIndex (tickers ex_iso)" by (simp add: ex_iso_def)
  have v: "set [''B'', ''Q'', ''A''] \<inter> set (tickers ex_iso) \<noteq> {}" by (simp add: ex_iso_def)
  from cluster_tickers_union[OF ex_iso_run_AB d ti v] ex_iso_run_AB d v
  show ?thesis by (simp add: ex_iso_AB_result_def)
qed

text \<open>
  Claim C1 as worded leaves the seeds out. With the request \<open>[A]\<close>, where A has no qualifying
  edge, no component contains a must-have node, and yet \<open>clusterTickers\<close> is \<open>[A]\<close>.
\<close>

theorem cluster_tickers_union_counterexample:
  "detectCluster ex_iso [''A''] (1 / 2) = Inr ex_iso_result
   \<and> set [''A''] \<inter> set (tickers ex_iso) \<noteq> {}
   \<and> clusterTickers ex_iso_result
       \<noteq> sorted_union (map comp_tickers (filter containsMustHave (components ex_iso_result)))"
  using ex_iso_run by (simp add: ex_iso_result_def ex_iso_def sorted_union_def)

end
